theory Spec2Isabelle
  imports Main "HOL-Library.Multiset" "HOL-Library.Char_ord" "HOL-Library.List_Lexorder"
begin

section \<open>Data plane: the data model of \<open>worker_broker.ts\<close>\<close>

text \<open>
  Objects of the source are shared by reference (a worker is reachable from the broker's
  map, from its heap and from the closures of in-flight requests), so workers and pending
  requests live in two object stores and are named by their address. A reference of the
  source never dangles, so the stores are total functions; the addresses in use are the
  ones held by the broker.
\<close>

datatype RequestQueueStatus = PASS_THROUGH | QUEUEING

datatype CredentialStatus = PENDING | BOUND

datatype RpcStatus = DEADLINE_EXCEEDED | RESOURCE_EXHAUSTED

text \<open>
  The messages of the errors the broker creates (the templates of the source, with their
  arguments), and the message of an error made by somebody else.
\<close>

datatype message =
    WaitingForWorkerTimedOut int string
  | RateLimitExceeded
  | NoAvailableWorkerProcess string
  | CredentialAlreadyExists string string
  | CredentialNotRegistered string string
  | Text string

text \<open>
  \<open>Annotated e q n\<close> is the error object \<open>e\<close> after \<open>Worker.pipe\<close> has set its
  \<open>queueing\<close> and \<open>workerName\<close> fields to \<open>q\<close> and \<open>n\<close>.
\<close>

datatype error =
    RpcError message RpcStatus
  | Error message
  | Annotated error int string

record Metadata =
  requestId :: string
  deadline :: int
  debuggerTag :: "string option"

record TriggerResponse =
  body :: string
  queueing :: int
  workerName :: string

datatype settled = Resolved TriggerResponse | Rejected error

text \<open>
  \<open>timer\<close>: \<open>Armed\<close> while the timeout is scheduled, \<open>Fired\<close> once its callback
  has run (the field still holds the handle), \<open>Cleared\<close> when the field is
  \<open>undefined\<close> after \<open>stopTimer\<close>.
\<close>

datatype timer_state = Armed | Fired | Cleared

record PendingRequest =
  startEpoch :: int
  available :: bool
  metadata :: Metadata
  deferred :: "settled option"
  timer :: timer_state

record Worker =
  name :: string
  credential :: string
  disposable :: bool
  activeRequestCount :: int
  trafficOff :: bool
  workerDebuggerTag :: "string option"
  downToZeroListeners :: nat

record WorkerItem =
  status :: CredentialStatus
  itemName :: string
  worker :: "nat option"

text \<open>
  Modelled from the spec: \<open>token_bucket.ts\<close> is not part of the sources at hand.
  "\<open>acquire()\<close> atomically decrements if tokens \<open>\<ge> 1\<close>, returning true, else returns
  false."
\<close>

record TokenBucket =
  tokens :: nat

definition acquire :: "TokenBucket \<Rightarrow> TokenBucket \<times> bool" where
  "acquire b = (if 1 \<le> tokens b then (b\<lparr>tokens := tokens b - 1\<rparr>, True) else (b, False))"

text \<open>The part of \<open>RawWithDefaultsFunctionProfile\<close> that the broker reads.\<close>

record FunctionProfile =
  profileName :: string
  profileDisposable :: bool
  profileMaxActivateRequests :: int
  initializationTimeout :: int
  disableRequestQueue :: bool
  fastFailRequestsOnStarting :: bool
  rateLimit :: "nat option"

datatype WorkerStatusReport = ContainerInstalled | RequestDrained

text \<open>
  What the broker does to its collaborators, in the order it does it, and the events
  inside the broker that the properties speak of (\<open>closeTraffic\<close> called,
  \<open>downToZero\<close> emitted, an error logged).
\<close>

datatype effect =
    DelegateInit string int
  | DelegateTrigger string string
  | DelegateInspectorStart string
  | DelegateResetPeer string
  | BroadcastRequestQueueing string
  | BroadcastContainerStatusReport string WorkerStatusReport
  | QueuedRequestCounterAdd
  | QueuedRequestDurationRecord int
  | EmitDownToZero nat
  | CloseTrafficCalled nat
  | LogError string

record WorkerBroker =
  profile :: FunctionProfile
  inspect :: bool
  requestQueue :: "nat list"
  requestQueueStatus :: RequestQueueStatus
  workerHeap :: "nat list"
  workerMap :: "string \<rightharpoonup> WorkerItem"
  tokenBucket :: "TokenBucket option"
  workerStore :: "nat \<Rightarrow> Worker"
  requestStore :: "nat \<Rightarrow> PendingRequest"
  nextRef :: nat
  finishCallbacks :: "nat list"
  effects :: "effect list"

definition emit :: "effect \<Rightarrow> WorkerBroker \<Rightarrow> WorkerBroker" where
  "emit e s = s\<lparr>effects := effects s @ [e]\<rparr>"

definition brokerDisposable :: "WorkerBroker \<Rightarrow> bool" where
  "brokerDisposable s = profileDisposable (profile s)"

definition maxActivateRequests :: "WorkerBroker \<Rightarrow> int" where
  "maxActivateRequests s =
     (if brokerDisposable s then 1 else profileMaxActivateRequests (profile s))"

subsection \<open>Worker selection\<close>

text \<open>
  The key of \<open>getAvailableWorker\<close>:
  \<^verbatim>\<open>it => it.trafficOff ? Infinity : it.activeRequestCount\<close>
\<close>

datatype heap_key = Finite int | Infinity

fun key_le :: "heap_key \<Rightarrow> heap_key \<Rightarrow> bool" where
  "key_le (Finite a) (Finite b) = (a \<le> b)"
| "key_le _ Infinity = True"
| "key_le Infinity (Finite _) = False"

definition heapKey :: "Worker \<Rightarrow> heap_key" where
  "heapKey it = (if trafficOff it then Infinity else Finite (activeRequestCount it))"

text \<open>
  \<open>MinHeap.heapify\<close> belongs to the package \<open>@datastructures-js/heap\<close>, not to this
  repository; the broker takes it as a parameter \<open>h\<close> here. What the broker relies on is
  the contract of a binary min-heap built in place: the array keeps its elements and its
  first element has a least key.
\<close>

type_synonym heapify = "(nat \<Rightarrow> heap_key) \<Rightarrow> nat list \<Rightarrow> nat list"

definition heapify_contract :: "heapify \<Rightarrow> bool" where
  "heapify_contract h \<longleftrightarrow>
     (\<forall>k xs. mset (h k xs) = mset xs \<and>
        (\<forall>x \<in> set xs. key_le (k (hd (h k xs))) (k x)))"

text \<open>A heapify for concrete runs: a least element (the first of them) moves to the front.\<close>

fun least_ref :: "(nat \<Rightarrow> heap_key) \<Rightarrow> nat \<Rightarrow> nat list \<Rightarrow> nat" where
  "least_ref k m [] = m"
| "least_ref k m (x # xs) = least_ref k (if key_le (k m) (k x) then m else x) xs"

definition least_first :: heapify where
  "least_first k xs =
     (case xs of [] \<Rightarrow> [] | x # ys \<Rightarrow> (let m = least_ref k x ys in m # remove1 m xs))"

definition getAvailableWorker :: "heapify \<Rightarrow> WorkerBroker \<Rightarrow> WorkerBroker \<times> nat option" where
  "getAvailableWorker h s =
     (let heap = h (\<lambda>r. heapKey (workerStore s r)) (workerHeap s);
          s' = s\<lparr>workerHeap := heap\<rparr>
      in case heap of
           [] \<Rightarrow> (s', None)
         | r # _ \<Rightarrow>
             (if \<not> trafficOff (workerStore s r)
                 \<and> activeRequestCount (workerStore s r) < maxActivateRequests s
              then (s', Some r) else (s', None)))"

subsection \<open>Worker\<close>

definition updWorker :: "nat \<Rightarrow> (Worker \<Rightarrow> Worker) \<Rightarrow> WorkerBroker \<Rightarrow> WorkerBroker" where
  "updWorker r f s = s\<lparr>workerStore := (workerStore s)(r := f (workerStore s r))\<rparr>"

definition updRequest :: "nat \<Rightarrow> (PendingRequest \<Rightarrow> PendingRequest) \<Rightarrow> WorkerBroker \<Rightarrow> WorkerBroker" where
  "updRequest q f s = s\<lparr>requestStore := (requestStore s)(q := f (requestStore s q))\<rparr>"

text \<open>\<open>Worker.isWorkerFree\<close>\<close>

definition isWorkerFree :: "WorkerBroker \<Rightarrow> nat \<Rightarrow> bool" where
  "isWorkerFree s r =
     (if trafficOff (workerStore s r) then False
      else maxActivateRequests s > activeRequestCount (workerStore s r))"

text \<open>
  \<open>WorkerBroker.closeTraffic\<close> with \<open>Worker.closeTraffic\<close> inlined, up to its first
  suspension: the traffic gate closes at once; an idle worker is reported drained, a busy
  one gets a one-shot \<open>downToZero\<close> listener that will report it.
\<close>

definition closeTraffic :: "nat \<Rightarrow> WorkerBroker \<Rightarrow> WorkerBroker" where
  "closeTraffic r s =
     (let s1 = emit (CloseTrafficCalled r) (updWorker r (\<lambda>w. w\<lparr>trafficOff := True\<rparr>) s)
      in if activeRequestCount (workerStore s1 r) \<le> 0
         then emit (BroadcastContainerStatusReport (name (workerStore s1 r)) RequestDrained) s1
         else updWorker r (\<lambda>w. w\<lparr>downToZeroListeners := Suc (downToZeroListeners w)\<rparr>) s1)"

text \<open>
  \<open>this.emit('downToZero')\<close>: every waiting \<open>closeTraffic\<close> resumes and reports (the
  reports are put right after the emission).
\<close>

definition emitDownToZero :: "nat \<Rightarrow> WorkerBroker \<Rightarrow> WorkerBroker" where
  "emitDownToZero r s =
     (let n = downToZeroListeners (workerStore s r);
          s1 = emit (EmitDownToZero r) (updWorker r (\<lambda>w. w\<lparr>downToZeroListeners := 0\<rparr>) s)
      in s1\<lparr>effects := effects s1 @
            replicate n (BroadcastContainerStatusReport (name (workerStore s r)) RequestDrained)\<rparr>)"

text \<open>
  \<open>Worker.pipe\<close> is an async function; it is cut at its suspension points. The input is
  a buffer with its metadata, or a pending request of the queue.
\<close>

datatype pipe_input = Direct Metadata | Queued nat

datatype 'a outcome = Returns 'a | Throws error

definition pipeMetadata :: "WorkerBroker \<Rightarrow> pipe_input \<Rightarrow> Metadata" where
  "pipeMetadata s inp = (case inp of Direct md \<Rightarrow> md | Queued q \<Rightarrow> metadata (requestStore s q))"

definition pipeWaitMs :: "int \<Rightarrow> WorkerBroker \<Rightarrow> pipe_input \<Rightarrow> int" where
  "pipeWaitMs now s inp = (case inp of Direct md \<Rightarrow> 0 | Queued q \<Rightarrow> now - startEpoch (requestStore s q))"

text \<open>A tag is truthy in the source when it is present and not the empty string.\<close>

definition truthyTag :: "string option \<Rightarrow> bool" where
  "truthyTag t = (case t of None \<Rightarrow> False | Some x \<Rightarrow> x \<noteq> [])"

text \<open>\<open>this.activeRequestCount++\<close> and the call of \<open>delegate.trigger\<close>.\<close>

definition pipe_dispatch :: "nat \<Rightarrow> Metadata \<Rightarrow> WorkerBroker \<Rightarrow> WorkerBroker" where
  "pipe_dispatch r md s =
     emit (DelegateTrigger (credential (workerStore s r)) (requestId md))
       (updWorker r (\<lambda>w. w\<lparr>activeRequestCount := activeRequestCount w + 1\<rparr>) s)"

text \<open>
  The synchronous head of \<open>pipe\<close>. The flag tells whether the request was handed to
  \<open>delegate.trigger\<close> (True), or \<open>pipe\<close> is suspended on \<open>inspectorStart\<close> (False).
\<close>

definition pipe_begin :: "nat \<Rightarrow> Metadata \<Rightarrow> WorkerBroker \<Rightarrow> WorkerBroker \<times> bool" where
  "pipe_begin r md s =
     (if disposable (workerStore s r) \<and> truthyTag (debuggerTag md)
      then (emit (DelegateInspectorStart (credential (workerStore s r)))
              (updWorker r (\<lambda>w. w\<lparr>workerDebuggerTag := debuggerTag md\<rparr>) s), False)
      else (pipe_dispatch r md s, True))"

text \<open>\<open>pipe\<close> resumes after \<open>inspectorStart\<close>; its rejection leaves \<open>pipe\<close> at once.\<close>

definition pipe_inspector_done :: "nat \<Rightarrow> Metadata \<Rightarrow> unit outcome \<Rightarrow> WorkerBroker \<Rightarrow> WorkerBroker \<times> error option" where
  "pipe_inspector_done r md res s =
     (case res of Throws e \<Rightarrow> (s, Some e) | Returns _ \<Rightarrow> (pipe_dispatch r md s, None))"

text \<open>
  \<open>pipe\<close> resumes after \<open>delegate.trigger\<close>: the \<open>try\<close> block and its \<open>catch\<close>
  (what the delegate throws is an \<open>Error\<close>, so the \<open>catch\<close> annotates it).
  On success the callback of \<open>ret.finish().finally\<close> is attached to the response and
  waits for the body to be through: \<open>finishCallbacks\<close> holds the worker of every callback
  that has not run yet.
\<close>

definition pipe_trigger_done :: "nat \<Rightarrow> int \<Rightarrow> TriggerResponse outcome \<Rightarrow> WorkerBroker
    \<Rightarrow> WorkerBroker \<times> (error + TriggerResponse)" where
  "pipe_trigger_done r waitMs res s =
     (case res of
        Returns ret \<Rightarrow>
          (s\<lparr>finishCallbacks := finishCallbacks s @ [r]\<rparr>,
           Inr (ret\<lparr>queueing := waitMs, workerName := name (workerStore s r)\<rparr>))
      | Throws e \<Rightarrow> (s, Inl (Annotated e waitMs (name (workerStore s r)))))"

text \<open>
  The whole of \<open>pipe\<close> when nothing else runs in between, the delegate's answers given:
  the state when \<open>pipe\<close> settles, and what it settles with.
\<close>

definition pipe :: "int \<Rightarrow> nat \<Rightarrow> pipe_input \<Rightarrow> unit outcome \<Rightarrow> TriggerResponse outcome \<Rightarrow> WorkerBroker
    \<Rightarrow> WorkerBroker \<times> (error + TriggerResponse)" where
  "pipe now r inp inspector res s =
     (let md = pipeMetadata s inp; waitMs = pipeWaitMs now s inp in
      case pipe_begin r md s of
        (s1, True) \<Rightarrow> pipe_trigger_done r waitMs res s1
      | (s1, False) \<Rightarrow>
          (case pipe_inspector_done r md inspector s1 of
             (s2, Some e) \<Rightarrow> (s2, Inl e)
           | (s2, None) \<Rightarrow> pipe_trigger_done r waitMs res s2))"

subsection \<open>The request queue\<close>

text \<open>\<open>PendingRequest.stopTimer\<close>\<close>

definition stopTimer :: "nat \<Rightarrow> WorkerBroker \<Rightarrow> WorkerBroker" where
  "stopTimer q s = updRequest q (\<lambda>p. p\<lparr>timer := Cleared\<rparr>) s"

text \<open>Settling the deferred of a pending request: only the first call has an effect.\<close>

definition settle :: "nat \<Rightarrow> settled \<Rightarrow> WorkerBroker \<Rightarrow> WorkerBroker" where
  "settle q v s =
     updRequest q (\<lambda>p. if deferred p = None then p\<lparr>deferred := Some v\<rparr> else p) s"

definition recordQueuedDuration :: "int \<Rightarrow> nat \<Rightarrow> WorkerBroker \<Rightarrow> WorkerBroker" where
  "recordQueuedDuration now q s =
     emit (QueuedRequestDurationRecord (now - startEpoch (requestStore s q))) s"

text \<open>
  \<open>tryConsumeQueue\<close>, the loop. Each dispatch runs the synchronous head of \<open>pipe\<close>;
  what follows the promise is \<open>consume_settled\<close> below.
\<close>

function tryConsumeLoop :: "int \<Rightarrow> nat \<Rightarrow> WorkerBroker \<Rightarrow> WorkerBroker" where
  "tryConsumeLoop now r s =
     (case requestQueue s of
        [] \<Rightarrow> s
      | q # rest \<Rightarrow>
          if \<not> isWorkerFree s r then s
          else
            let s1 = s\<lparr>requestQueue := rest\<rparr> in
            if \<not> available (requestStore s1 q) then tryConsumeLoop now r s1
            else
              let s2 = stopTimer q s1;
                  s3 = fst (pipe_begin r (metadata (requestStore s2 q)) s2);
                  s4 = recordQueuedDuration now q s3
              in if brokerDisposable s4 then s4 else tryConsumeLoop now r s4)"
  by pat_completeness auto
termination
  by (relation "measure (\<lambda>(now, r, s). length (requestQueue s))")
     (auto simp: stopTimer_def pipe_begin_def pipe_dispatch_def recordQueuedDuration_def
        emit_def updWorker_def updRequest_def)

declare tryConsumeLoop.simps [simp del]

definition tryConsumeQueue :: "int \<Rightarrow> nat \<Rightarrow> WorkerBroker \<Rightarrow> WorkerBroker" where
  "tryConsumeQueue now r s =
     (let s' = tryConsumeLoop now r s
      in if requestQueue s' = [] then s'\<lparr>requestQueueStatus := PASS_THROUGH\<rparr> else s')"

text \<open>
  The handlers on the promise of a dispatch from the queue:
  \<^verbatim>\<open>.then(ret => request.resolve(ret), err => request.reject(err))
  .finally(() => { if (this.disposable) this.closeTraffic(notThatBusyWorker) })\<close>
\<close>

definition consume_settled :: "nat \<Rightarrow> nat \<Rightarrow> error + TriggerResponse \<Rightarrow> WorkerBroker \<Rightarrow> WorkerBroker" where
  "consume_settled q r res s =
     (let s1 = (case res of Inr ret \<Rightarrow> settle q (Resolved ret) s | Inl err \<Rightarrow> settle q (Rejected err) s)
      in if brokerDisposable s1 then closeTraffic r s1 else s1)"

text \<open>\<open>Worker.continueConsumeQueue\<close>\<close>

definition continueConsumeQueue :: "int \<Rightarrow> nat \<Rightarrow> WorkerBroker \<Rightarrow> WorkerBroker" where
  "continueConsumeQueue now r s =
     (if disposable (workerStore s r) then s
      else if isWorkerFree s r then tryConsumeQueue now r s else s)"

text \<open>
  The callback of \<open>ret.finish().finally\<close>, run when the response body is through.
  It runs once for each response it was attached to, and for nothing else.
\<close>

definition response_finished :: "int \<Rightarrow> nat \<Rightarrow> WorkerBroker \<Rightarrow> WorkerBroker" where
  "response_finished now r s =
     (if r \<notin> set (finishCallbacks s) then s
      else
        let s0 = s\<lparr>finishCallbacks := remove1 r (finishCallbacks s)\<rparr>;
            s1 = updWorker r (\<lambda>w. w\<lparr>activeRequestCount := activeRequestCount w - 1\<rparr>) s0;
            s2 = (if activeRequestCount (workerStore s1 r) = 0 then emitDownToZero r s1 else s1)
        in continueConsumeQueue now r s2)"

text \<open>
  \<open>createPendingRequest\<close>. The new request gets the next free address; the node that
  \<open>List.push\<close> returns is named by the same address. The timer is armed by the
  constructor of \<open>PendingRequest\<close>.
\<close>

definition createPendingRequest :: "int \<Rightarrow> Metadata \<Rightarrow> WorkerBroker \<Rightarrow> WorkerBroker \<times> nat" where
  "createPendingRequest now md s =
     (let q = nextRef s;
          request = \<lparr>startEpoch = now, available = True, metadata = md, deferred = None,
                     timer = Armed\<rparr>;
          s1 = s\<lparr>requestStore := (requestStore s)(q := request), nextRef := Suc q,
                 requestQueue := requestQueue s @ [q]\<rparr>;
          s2 = emit QueuedRequestCounterAdd s1;
          s3 = emit (BroadcastRequestQueueing (requestId md)) s2
      in (s3, q))"

text \<open>
  The timer of a pending request fires: the callback of the constructor, then the
  \<open>'timeout'\<close> listener that \<open>createPendingRequest\<close> registered. A timer that
  \<open>stopTimer\<close> cleared, or that has fired, does not fire.
  \<open>List.remove\<close> (\<open>lib/list\<close>, not among the sources at hand) unlinks the node.
\<close>

definition timerFired :: "int \<Rightarrow> nat \<Rightarrow> WorkerBroker \<Rightarrow> WorkerBroker" where
  "timerFired now q s =
     (if timer (requestStore s q) \<noteq> Armed then s
      else
        let s1 = updRequest q (\<lambda>p. p\<lparr>available := False, timer := Fired\<rparr>) s;
            s2 = s1\<lparr>requestQueue := remove1 q (requestQueue s1)\<rparr>;
            s3 = settle q (Rejected (RpcError
                   (WaitingForWorkerTimedOut (deadline (metadata (requestStore s2 q)))
                      (requestId (metadata (requestStore s2 q))))
                   DEADLINE_EXCEEDED)) s2
        in recordQueuedDuration now q s3)"

record StartWorkerFastFailRequest =
  fatal :: bool
  failMessage :: string

definition fastFailAllPendingsDueToStartError :: "int \<Rightarrow> StartWorkerFastFailRequest \<Rightarrow> WorkerBroker \<Rightarrow> WorkerBroker" where
  "fastFailAllPendingsDueToStartError now req s =
     (if \<not> fatal req \<and> \<not> fastFailRequestsOnStarting (profile s) then s
      else
        let queue = requestQueue s;
            s1 = s\<lparr>requestQueue := []\<rparr>;
            err = Error (Text (failMessage req))
        in foldl (\<lambda>t pendingRequest.
                    recordQueuedDuration now pendingRequest
                      (settle pendingRequest (Rejected err) (stopTimer pendingRequest t)))
             s1 queue)"

subsection \<open>Admission and dispatch\<close>

text \<open>
  What one call of \<open>invoke\<close> has done when it first suspends or fails: it failed, it
  queued a pending request (and returns its promise), or it handed the request to a
  worker (\<open>pipe\<close> is running).
\<close>

datatype invoke_step = Failed error | Enqueued nat | Piped nat

text \<open>\<open>#checkRequestQueue\<close> and \<open>_queueRequest\<close>\<close>

definition queueRequest :: "int \<Rightarrow> Metadata \<Rightarrow> WorkerBroker \<Rightarrow> WorkerBroker \<times> invoke_step" where
  "queueRequest now md s =
     (if disableRequestQueue (profile s)
      then (emit (BroadcastRequestQueueing (requestId md)) s,
            Failed (Error (NoAvailableWorkerProcess (profileName (profile s)))))
      else
        let s1 = s\<lparr>requestQueueStatus := QUEUEING\<rparr>;
            (s2, q) = createPendingRequest now md s1
        in (s2, Enqueued q))"

text \<open>\<open>this.tokenBucket?.acquire() ?? true\<close>\<close>

definition acquireToken :: "WorkerBroker \<Rightarrow> WorkerBroker \<times> bool" where
  "acquireToken s =
     (case tokenBucket s of
        None \<Rightarrow> (s, True)
      | Some b \<Rightarrow> (let (b', ok) = acquire b in (s\<lparr>tokenBucket := Some b'\<rparr>, ok)))"

text \<open>\<open>invoke\<close>, once the broker is ready, up to the call of \<open>worker.pipe\<close>.\<close>

definition invoke :: "heapify \<Rightarrow> int \<Rightarrow> Metadata \<Rightarrow> WorkerBroker \<Rightarrow> WorkerBroker \<times> invoke_step" where
  "invoke h now md s =
     (let (s1, acquiredToken) = acquireToken s in
      if \<not> acquiredToken then (s1, Failed (RpcError RateLimitExceeded RESOURCE_EXHAUSTED))
      else
        case requestQueueStatus s1 of
          QUEUEING \<Rightarrow> queueRequest now md s1
        | PASS_THROUGH \<Rightarrow>
            (case getAvailableWorker h s1 of
               (s2, None) \<Rightarrow> queueRequest now md s2
             | (s2, Some r) \<Rightarrow> (fst (pipe_begin r md s2), Piped r)))"

text \<open>
  The \<open>finally\<close> block around \<open>await worker.pipe\<close> in \<open>invoke\<close>, run when \<open>pipe\<close>
  has settled with \<open>res\<close>; \<open>invoke\<close> then settles with the same.
\<close>

definition invoke_settled :: "nat \<Rightarrow> error + TriggerResponse \<Rightarrow> WorkerBroker
    \<Rightarrow> WorkerBroker \<times> (error + TriggerResponse)" where
  "invoke_settled r res s = ((if brokerDisposable s then closeTraffic r s else s), res)"

subsection \<open>Credentials\<close>

definition isCredentialPending :: "WorkerBroker \<Rightarrow> string \<Rightarrow> bool" where
  "isCredentialPending s c = (case workerMap s c of None \<Rightarrow> False | Some item \<Rightarrow> status item = PENDING)"

definition registerCredential :: "string \<Rightarrow> string \<Rightarrow> WorkerBroker \<Rightarrow> error + WorkerBroker" where
  "registerCredential n c s =
     (if isCredentialPending s c
      then Inl (Error (CredentialAlreadyExists c (profileName (profile s))))
      else Inr (s\<lparr>workerMap := (workerMap s)(c \<mapsto> \<lparr>status = PENDING, itemName = n, worker = None\<rparr>)\<rparr>))"

text \<open>
  \<open>removeWorker\<close>: \<open>findIndex\<close> and \<open>splice(idx, 1)\<close> drop the first worker of the
  heap with that credential.
\<close>

fun spliceFirst :: "('a \<Rightarrow> bool) \<Rightarrow> 'a list \<Rightarrow> 'a list" where
  "spliceFirst P [] = []"
| "spliceFirst P (x # xs) = (if P x then xs else x # spliceFirst P xs)"

definition removeWorker :: "string \<Rightarrow> WorkerBroker \<Rightarrow> WorkerBroker" where
  "removeWorker c s =
     s\<lparr>workerMap := (workerMap s)(c := None),
       workerHeap := spliceFirst (\<lambda>r. credential (workerStore s r) = c) (workerHeap s)\<rparr>"

text \<open>
  \<open>bindWorker\<close>, with the answer of the delegate's \<open>init\<close> given. The \<open>Worker\<close> object
  is built before \<open>init\<close> is called, but nothing refers to it until \<open>init\<close> has
  succeeded; it enters the store then. The second check of the source
  (\<open>item == null || item.status !== PENDING\<close>) repeats the first two.
\<close>

definition bindWorker :: "int \<Rightarrow> string \<Rightarrow> unit outcome \<Rightarrow> WorkerBroker \<Rightarrow> WorkerBroker \<times> (error + unit)" where
  "bindWorker now c init s =
     (case workerMap s c of
        None \<Rightarrow> (emit (LogError ''No credential bound to the broker'') s, Inr ())
      | Some item \<Rightarrow>
          if \<not> isCredentialPending s c
          then (s, Inl (Error (CredentialNotRegistered c (profileName (profile s)))))
          else if status item \<noteq> PENDING
          then (emit (LogError ''Duplicated worker with credential'') s, Inr ())
          else
            let w = \<lparr>name = itemName item, credential = c, disposable = brokerDisposable s,
                      activeRequestCount = 0, trafficOff = False, workerDebuggerTag = None,
                      downToZeroListeners = 0\<rparr>;
                s1 = emit (DelegateInit c (initializationTimeout (profile s) + now)) s
            in (case init of
                 Throws e \<Rightarrow> (emit (DelegateResetPeer c) s1, Inl e)
               | Returns _ \<Rightarrow>
                   let s2 = emit (BroadcastContainerStatusReport (name w) ContainerInstalled) s1;
                       r = nextRef s2;
                       bound = \<lparr>status = BOUND, itemName = itemName item, worker = Some r\<rparr>;
                       s3 = s2\<lparr>workerStore := (workerStore s2)(r := w), nextRef := Suc r,
                              workerMap := (workerMap s2)(c := Some bound),
                              workerHeap := workerHeap s2 @ [r]\<rparr>
                   in (tryConsumeQueue now r s3, Inr ())))"

text \<open>
  A new broker, as the constructor leaves it; \<open>w0\<close> and \<open>p0\<close> fill the addresses that
  hold no object yet. The bucket of a rate limit is taken to start with the tokens of its
  configuration.
\<close>

definition newBroker :: "FunctionProfile \<Rightarrow> bool \<Rightarrow> Worker \<Rightarrow> PendingRequest \<Rightarrow> WorkerBroker" where
  "newBroker p insp w0 p0 =
     \<lparr>profile = p, inspect = insp, requestQueue = [], requestQueueStatus = PASS_THROUGH,
      workerHeap = [], workerMap = Map.empty,
      tokenBucket = (case rateLimit p of None \<Rightarrow> None | Some n \<Rightarrow> Some \<lparr>tokens = n\<rparr>),
      workerStore = (\<lambda>_. w0), requestStore = (\<lambda>_. p0), nextRef = 0,
      finishCallbacks = [], effects = []\<rparr>"

subsection \<open>The broker as a state machine\<close>

definition updateProfile :: "FunctionProfile \<Rightarrow> WorkerBroker \<Rightarrow> error + WorkerBroker" where
  "updateProfile p s =
     (if profileName p \<noteq> profileName (profile s)
      then Inl (Error (Text ''Update with mismatched worker profile''))
      else Inr (s\<lparr>profile := p\<rparr>))"

text \<open>
  Everything that can happen to a broker: the calls of its methods, and the resumptions
  of what it has suspended (timers, delegate calls, response bodies). A call that throws
  leaves the state it has reached.
\<close>

datatype operation =
    Invoke int Metadata
  | InvokeSettled nat "error + TriggerResponse"
  | InspectorDone nat Metadata "unit outcome"
  | TriggerDone nat int "TriggerResponse outcome"
  | ConsumeSettled nat nat "error + TriggerResponse"
  | ResponseFinished int nat
  | TimerFired int nat
  | FastFail int StartWorkerFastFailRequest
  | TryConsumeQueue int nat
  | CloseTraffic nat
  | RegisterCredential string string
  | BindWorker int string "unit outcome"
  | RemoveWorker string
  | UpdateProfile FunctionProfile

fun step :: "heapify \<Rightarrow> WorkerBroker \<Rightarrow> operation \<Rightarrow> WorkerBroker" where
  "step h s (Invoke now md) = fst (invoke h now md s)"
| "step h s (InvokeSettled r res) = fst (invoke_settled r res s)"
| "step h s (InspectorDone r md res) = fst (pipe_inspector_done r md res s)"
| "step h s (TriggerDone r waitMs res) = fst (pipe_trigger_done r waitMs res s)"
| "step h s (ConsumeSettled q r res) = consume_settled q r res s"
| "step h s (ResponseFinished now r) = response_finished now r s"
| "step h s (TimerFired now q) = timerFired now q s"
| "step h s (FastFail now req) = fastFailAllPendingsDueToStartError now req s"
| "step h s (TryConsumeQueue now r) = tryConsumeQueue now r s"
| "step h s (CloseTraffic r) = closeTraffic r s"
| "step h s (RegisterCredential n c) = (case registerCredential n c s of Inl e \<Rightarrow> s | Inr s' \<Rightarrow> s')"
| "step h s (BindWorker now c init) = fst (bindWorker now c init s)"
| "step h s (RemoveWorker c) = removeWorker c s"
| "step h s (UpdateProfile p) = (case updateProfile p s of Inl e \<Rightarrow> s | Inr s' \<Rightarrow> s')"

definition run :: "heapify \<Rightarrow> WorkerBroker \<Rightarrow> operation list \<Rightarrow> WorkerBroker" where
  "run h s ops = foldl (step h) s ops"

text \<open>The invariant of the data model: a broker that passes requests through has an empty queue.\<close>

definition queue_inv :: "WorkerBroker \<Rightarrow> bool" where
  "queue_inv s \<longleftrightarrow> (requestQueueStatus s = PASS_THROUGH \<longrightarrow> requestQueue s = [])"

text \<open>
  The property of the specification's section 8: it passes requests through exactly when
  the queue is empty.
\<close>

definition queue_exact :: "WorkerBroker \<Rightarrow> bool" where
  "queue_exact s \<longleftrightarrow> (requestQueueStatus s = PASS_THROUGH \<longleftrightarrow> requestQueue s = [])"

fun isUpdateProfile :: "operation \<Rightarrow> bool" where
  "isUpdateProfile (UpdateProfile p) = True"
| "isUpdateProfile _ = False"

text \<open>
  The queue is well formed: no node is linked twice, and every queued request has been
  created, is available and has its timer armed.
\<close>

definition queue_wf :: "WorkerBroker \<Rightarrow> bool" where
  "queue_wf s \<longleftrightarrow>
     distinct (requestQueue s)
     \<and> (\<forall>q \<in> set (requestQueue s).
           q < nextRef s \<and> timer (requestStore s q) = Armed \<and> available (requestStore s q))"

text \<open>The effects that hand a request to a worker's process.\<close>

fun isTrigger :: "effect \<Rightarrow> bool" where
  "isTrigger (DelegateTrigger c i) = True"
| "isTrigger _ = False"

section \<open>Control plane: the shrink of \<open>DefaultController\<close>\<close>

text \<open>
  The control plane's view of a worker and of a broker (\<open>worker_stats\<close>, whose classes
  are used here through these members): \<open>running\<close> is the result of \<open>isRunning()\<close>,
  \<open>dataActiveRequestCount\<close> is \<open>data?.activeRequestCount\<close>, absent while the worker has
  no data. The workers of a broker are the values of its map, in the order of insertion.
\<close>

record StatsWorker =
  statsName :: string
  statsCredential :: string
  registerTime :: int
  running :: bool
  dataActiveRequestCount :: "int option"

text \<open>\<open>shrinkStrategy\<close> is \<open>data.worker?.shrinkStrategy\<close>.\<close>

record BrokerData =
  shrinkStrategy :: "string option"

record StatsBroker =
  brokerName :: string
  isInspector :: bool
  brokerIsDisposable :: bool
  workers :: "StatsWorker list"
  brokerData :: "BrokerData option"

record Delta =
  count :: int
  broker :: StatsBroker

record WorkerRef =
  refName :: string
  refCredential :: string

text \<open>
  \<open>Array.prototype.sort\<close> with a comparator, as the engine of Node.js sorts an array of
  fewer than 64 elements (\<open>ArrayTimSort\<close> with a minimal run of the length of the array):
  the run the array starts with is found, and the elements after it are put in by binary
  insertion. The comparator is called as the engine calls it, so the result is the
  engine's also for a comparator that does not order the elements. From 64 elements on the
  engine sorts pieces of 32 to 64 elements this way and merges them; the merge is not
  modelled, and the result is the same whenever the comparator orders the elements
  (\<open>sorted_wrt_unique\<close> below).
\<close>

text \<open>
  \<open>CountAndMakeRun\<close>: the array starts with a run, ascending (each element not before
  its predecessor) or strictly descending; a descending run is reversed in place.
  \<open>takeRun\<close> is its loop: the elements that continue the run, and the rest.
\<close>

fun takeRun :: "bool \<Rightarrow> ('a \<Rightarrow> 'a \<Rightarrow> int) \<Rightarrow> 'a \<Rightarrow> 'a list \<Rightarrow> 'a list \<times> 'a list" where
  "takeRun isDescending compareFn previousElement [] = ([], [])"
| "takeRun isDescending compareFn previousElement (currentElement # xs) =
     (let order = compareFn currentElement previousElement in
      if (if isDescending then order \<ge> 0 else order < 0) then ([], currentElement # xs)
      else (let (firstRun, rest) = takeRun isDescending compareFn currentElement xs
            in (currentElement # firstRun, rest)))"

definition countAndMakeRun :: "('a \<Rightarrow> 'a \<Rightarrow> int) \<Rightarrow> 'a list \<Rightarrow> 'a list \<times> 'a list" where
  "countAndMakeRun compareFn xs =
     (case xs of
        [] \<Rightarrow> ([], [])
      | [a] \<Rightarrow> ([a], [])
      | elementHigh # elementLow # others \<Rightarrow>
          (let isDescending = compareFn elementLow elementHigh < 0;
               (firstRun, rest) = takeRun isDescending compareFn elementLow others;
               whole = elementHigh # elementLow # firstRun
           in (if isDescending then rev whole else whole, rest)))"

text \<open>
  \<open>BinaryInsertionSort\<close>: every element after the run is the pivot of a binary search
  in the sorted part before it, and is inserted where the search ends. The search starts
  with \<open>left = 0\<close> and \<open>right\<close> the length of the sorted part, so \<open>mid\<close> is an
  index of it.
\<close>

function binarySearch :: "('a \<Rightarrow> 'a \<Rightarrow> int) \<Rightarrow> 'a \<Rightarrow> 'a list \<Rightarrow> nat \<Rightarrow> nat \<Rightarrow> nat" where
  "binarySearch compareFn pivot ys left right =
     (if left < right
      then (let mid = left + (right - left) div 2 in
            if compareFn pivot (ys ! mid) < 0
            then binarySearch compareFn pivot ys left mid
            else binarySearch compareFn pivot ys (mid + 1) right)
      else left)"
  by pat_completeness auto
termination
  by (relation "measure (\<lambda>(compareFn, pivot, ys, left, right). right - left)") auto

declare binarySearch.simps [simp del]

definition binaryInsert :: "('a \<Rightarrow> 'a \<Rightarrow> int) \<Rightarrow> 'a list \<Rightarrow> 'a \<Rightarrow> 'a list" where
  "binaryInsert compareFn ys pivot =
     (let left = binarySearch compareFn pivot ys 0 (length ys)
      in take left ys @ pivot # drop left ys)"

definition sortBy :: "('a \<Rightarrow> 'a \<Rightarrow> int) \<Rightarrow> 'a list \<Rightarrow> 'a list" where
  "sortBy compareFn xs =
     (if length xs < 2 then xs
      else (let (firstRun, rest) = countAndMakeRun compareFn xs
            in foldl (binaryInsert compareFn) firstRun rest))"

text \<open>\<open><\<close> and \<open>>\<close> of the language on numbers that may be \<open>undefined\<close>: false then.\<close>

definition js_lt :: "int option \<Rightarrow> int option \<Rightarrow> bool" where
  "js_lt a b = (case (a, b) of (Some x, Some y) \<Rightarrow> x < y | _ \<Rightarrow> False)"

definition mostWhatNWorkers :: "StatsBroker \<Rightarrow> nat \<Rightarrow> (StatsWorker \<Rightarrow> StatsWorker \<Rightarrow> int) \<Rightarrow> WorkerRef list" where
  "mostWhatNWorkers b n compareFn =
     (let ws = filter running (workers b);
          nWorkers = take n (sortBy compareFn ws)
      in map (\<lambda>w. \<lparr>refName = statsName w, refCredential = statsCredential w\<rparr>) nWorkers)"

definition idleCompare :: "StatsWorker \<Rightarrow> StatsWorker \<Rightarrow> int" where
  "idleCompare a b =
     (if js_lt (dataActiveRequestCount a) (dataActiveRequestCount b) then - 1
      else if js_lt (dataActiveRequestCount b) (dataActiveRequestCount a) then 1
      else if statsCredential a < statsCredential b then - 1 else 1)"

definition newestCompare :: "StatsWorker \<Rightarrow> StatsWorker \<Rightarrow> int" where
  "newestCompare a b =
     (if registerTime a > registerTime b then - 1
      else if registerTime a < registerTime b then 1
      else if statsCredential a < statsCredential b then - 1 else 1)"

definition oldestCompare :: "StatsWorker \<Rightarrow> StatsWorker \<Rightarrow> int" where
  "oldestCompare a b =
     (if registerTime a < registerTime b then - 1
      else if registerTime a > registerTime b then 1
      else if statsCredential a < statsCredential b then - 1 else 1)"

definition mostIdleNWorkers :: "StatsBroker \<Rightarrow> nat \<Rightarrow> WorkerRef list" where
  "mostIdleNWorkers b n = mostWhatNWorkers b n idleCompare"

definition newestNWorkers :: "StatsBroker \<Rightarrow> nat \<Rightarrow> WorkerRef list" where
  "newestNWorkers b n = mostWhatNWorkers b n newestCompare"

definition oldestNWorkers :: "StatsBroker \<Rightarrow> nat \<Rightarrow> WorkerRef list" where
  "oldestNWorkers b n = mostWhatNWorkers b n oldestCompare"

text \<open>The strategy \<open>shrinkDraw\<close> goes by; \<open>dflt\<close> is \<open>config.worker.defaultShrinkStrategy\<close>.\<close>

definition drawStrategy :: "string \<Rightarrow> StatsBroker \<Rightarrow> string" where
  "drawStrategy dflt b =
     (case brokerData b of
        None \<Rightarrow> dflt
      | Some d \<Rightarrow> (case shrinkStrategy d of None \<Rightarrow> dflt | Some st \<Rightarrow> st))"

definition shrinkDraw :: "string \<Rightarrow> StatsBroker \<Rightarrow> nat \<Rightarrow> WorkerRef list" where
  "shrinkDraw dflt b countToChoose =
     (let strategy = drawStrategy dflt b in
      if strategy = ''FILO'' then newestNWorkers b countToChoose
      else if strategy = ''FIFO'' then oldestNWorkers b countToChoose
      else mostIdleNWorkers b countToChoose)"

text \<open>
  \<open>doShrink\<close>. The data plane (\<open>reduceCapacity\<close>) and the state manager (\<open>getWorker\<close>)
  are parameters; what \<open>doShrink\<close> does to them and to \<open>stopWorker\<close> is its result.
\<close>

record ShrinkData =
  functionName :: string
  inspector :: bool
  shrinkWorkers :: "WorkerRef list"

record ShrinkResult =
  reduceCapacityCalls :: "ShrinkData list list"
  markedShrink :: "(string \<times> bool \<times> string) list"
  stopWorkerCalls :: "string list"

text \<open>The first loop: one entry for each delta that is not skipped.\<close>

fun collectShrinkData :: "string \<Rightarrow> Delta list \<Rightarrow> ShrinkData list" where
  "collectShrinkData dflt [] = []"
| "collectShrinkData dflt (d # ds) =
     (if count d \<ge> 0 then collectShrinkData dflt ds
      else if isInspector (broker d) then collectShrinkData dflt ds
      else if brokerIsDisposable (broker d) then collectShrinkData dflt ds
      else \<lparr>functionName = brokerName (broker d), inspector = isInspector (broker d),
             shrinkWorkers = shrinkDraw dflt (broker d) (nat \<bar>count d\<bar>)\<rparr>
           # collectShrinkData dflt ds)"

text \<open>The loop over the workers of one broker of the answer.\<close>

fun stopEnsuredWorkers :: "(string \<Rightarrow> bool \<Rightarrow> string \<Rightarrow> StatsWorker option) \<Rightarrow> string \<Rightarrow> bool
    \<Rightarrow> WorkerRef list \<Rightarrow> ShrinkResult \<Rightarrow> ShrinkResult" where
  "stopEnsuredWorkers getWorker fn insp [] res = res"
| "stopEnsuredWorkers getWorker fn insp (w # ws) res =
     (case getWorker fn insp (refName w) of
        None \<Rightarrow> stopEnsuredWorkers getWorker fn insp ws res
      | Some realWorker \<Rightarrow>
          if statsCredential realWorker \<noteq> refCredential w
          then stopEnsuredWorkers getWorker fn insp ws res
          else stopEnsuredWorkers getWorker fn insp ws
                 (res\<lparr>markedShrink := markedShrink res @ [(fn, insp, refName w)],
                      stopWorkerCalls := stopWorkerCalls res @ [refName w]\<rparr>))"

fun stopEnsured :: "(string \<Rightarrow> bool \<Rightarrow> string \<Rightarrow> StatsWorker option) \<Rightarrow> ShrinkData list
    \<Rightarrow> ShrinkResult \<Rightarrow> ShrinkResult" where
  "stopEnsured getWorker [] res = res"
| "stopEnsured getWorker (b # bs) res =
     stopEnsured getWorker bs
       (stopEnsuredWorkers getWorker (functionName b) (inspector b) (shrinkWorkers b) res)"

definition doShrink :: "string \<Rightarrow> (ShrinkData list \<Rightarrow> ShrinkData list option)
    \<Rightarrow> (string \<Rightarrow> bool \<Rightarrow> string \<Rightarrow> StatsWorker option) \<Rightarrow> Delta list \<Rightarrow> ShrinkResult" where
  "doShrink dflt reduceCapacity getWorker deltas =
     (let shrinkData = collectShrinkData dflt deltas;
          none = \<lparr>reduceCapacityCalls = [], markedShrink = [], stopWorkerCalls = []\<rparr>
      in if shrinkData = [] then none
         else
           let called = none\<lparr>reduceCapacityCalls := [shrinkData]\<rparr> in
           case reduceCapacity shrinkData of
             None \<Rightarrow> called
           | Some ensured \<Rightarrow> if ensured = [] then called else stopEnsured getWorker ensured called)"

text \<open>
  The order of the strategies in the words of the specification: oldest \<open>registerTime\<close>
  first for \<open>FIFO\<close>, newest first for \<open>FILO\<close>, least \<open>activeRequestCount\<close> first for
  \<open>LCC\<close> and for every other value; ties go by the credential, ascending.
\<close>

definition drawnBefore :: "string \<Rightarrow> StatsWorker \<Rightarrow> StatsWorker \<Rightarrow> bool" where
  "drawnBefore strategy a b =
     (if strategy = ''FIFO''
      then registerTime a < registerTime b
           \<or> (registerTime a = registerTime b \<and> statsCredential a \<le> statsCredential b)
      else if strategy = ''FILO''
      then registerTime a > registerTime b
           \<or> (registerTime a = registerTime b \<and> statsCredential a \<le> statsCredential b)
      else js_lt (dataActiveRequestCount a) (dataActiveRequestCount b)
           \<or> (dataActiveRequestCount a = dataActiveRequestCount b
               \<and> statsCredential a \<le> statsCredential b))"

text \<open>The comparator \<open>shrinkDraw\<close> sorts with, and the running workers in its order.\<close>

definition drawCompare :: "string \<Rightarrow> StatsWorker \<Rightarrow> StatsWorker \<Rightarrow> int" where
  "drawCompare strategy =
     (if strategy = ''FILO'' then newestCompare
      else if strategy = ''FIFO'' then oldestCompare else idleCompare)"

definition candidates :: "string \<Rightarrow> StatsBroker \<Rightarrow> StatsWorker list" where
  "candidates dflt b = sortBy (drawCompare (drawStrategy dflt b)) (filter running (workers b))"

definition toRef :: "StatsWorker \<Rightarrow> WorkerRef" where
  "toRef w = \<lparr>refName = statsName w, refCredential = statsCredential w\<rparr>"

text \<open>
  The deltas \<open>doShrink\<close> does not skip, the request it sends for them, and the workers of
  an answer that it stops: those with a record in the state manager whose credential is
  the one of the answer.
\<close>

definition qualifies :: "Delta \<Rightarrow> bool" where
  "qualifies d \<longleftrightarrow> count d < 0 \<and> \<not> isInspector (broker d) \<and> \<not> brokerIsDisposable (broker d)"

definition shrinkRequest :: "string \<Rightarrow> Delta \<Rightarrow> ShrinkData" where
  "shrinkRequest dflt d =
     \<lparr>functionName = brokerName (broker d), inspector = isInspector (broker d),
      shrinkWorkers = shrinkDraw dflt (broker d) (nat \<bar>count d\<bar>)\<rparr>"

definition credentialMatches :: "(string \<Rightarrow> bool \<Rightarrow> string \<Rightarrow> StatsWorker option) \<Rightarrow> ShrinkData \<Rightarrow> WorkerRef \<Rightarrow> bool" where
  "credentialMatches getWorker b w =
     (case getWorker (functionName b) (inspector b) (refName w) of
        None \<Rightarrow> False
      | Some realWorker \<Rightarrow> statsCredential realWorker = refCredential w)"

definition toStop :: "(string \<Rightarrow> bool \<Rightarrow> string \<Rightarrow> StatsWorker option) \<Rightarrow> ShrinkData list
    \<Rightarrow> (string \<times> bool \<times> string) list" where
  "toStop getWorker ensured =
     concat (map (\<lambda>b. map (\<lambda>w. (functionName b, inspector b, refName w))
                          (filter (credentialMatches getWorker b) (shrinkWorkers b))) ensured)"

section \<open>Auxiliary notions of the proofs\<close>

text \<open>One turn of the loop of \<open>fastFailAllPendingsDueToStartError\<close>, and what it makes of a request.\<close>

definition failEntry :: "int \<Rightarrow> error \<Rightarrow> WorkerBroker \<Rightarrow> nat \<Rightarrow> WorkerBroker" where
  "failEntry now err t q = recordQueuedDuration now q (settle q (Rejected err) (stopTimer q t))"

definition failedRequest :: "error \<Rightarrow> PendingRequest \<Rightarrow> PendingRequest" where
  "failedRequest err p =
     (if deferred p = None then p\<lparr>timer := Cleared, deferred := Some (Rejected err)\<rparr>
      else p\<lparr>timer := Cleared\<rparr>)"

text \<open>
  A comparator that decides a transitive relation \<open>R\<close> on the elements at hand: a
  negative \<open>cmp a b\<close> only if \<open>R a b\<close>, any other only if \<open>R b a\<close>. The sort sorts by
  such a relation.
\<close>

definition decides :: "'a set \<Rightarrow> ('a \<Rightarrow> 'a \<Rightarrow> bool) \<Rightarrow> ('a \<Rightarrow> 'a \<Rightarrow> int) \<Rightarrow> bool" where
  "decides A R cmp \<longleftrightarrow>
     (\<forall>x \<in> A. \<forall>y \<in> A. \<forall>z \<in> A. R x y \<longrightarrow> R y z \<longrightarrow> R x z)
     \<and> (\<forall>x \<in> A. \<forall>y \<in> A. (cmp x y < 0 \<longrightarrow> R x y) \<and> (\<not> cmp x y < 0 \<longrightarrow> R y x))"

section \<open>Concrete states\<close>

subsection \<open>Brokers of the data plane\<close>

definition exampleProfile :: FunctionProfile where
  "exampleProfile =
     \<lparr>profileName = ''lambda'', profileDisposable = False, profileMaxActivateRequests = 10,
      initializationTimeout = 10000, disableRequestQueue = False,
      fastFailRequestsOnStarting = False, rateLimit = None\<rparr>"

definition exampleWorker :: "string \<Rightarrow> string \<Rightarrow> int \<Rightarrow> bool \<Rightarrow> Worker" where
  "exampleWorker n c a off =
     \<lparr>name = n, credential = c, disposable = False, activeRequestCount = a, trafficOff = off,
      workerDebuggerTag = None, downToZeroListeners = 0\<rparr>"

definition exampleRequest :: "string \<Rightarrow> int \<Rightarrow> int \<Rightarrow> PendingRequest" where
  "exampleRequest i t d =
     \<lparr>startEpoch = t, available = True,
      metadata = \<lparr>requestId = i, deadline = d, debuggerTag = None\<rparr>,
      deferred = None, timer = Armed\<rparr>"

definition emptyBroker :: "FunctionProfile \<Rightarrow> WorkerBroker" where
  "emptyBroker p = newBroker p False (exampleWorker [] [] 0 False) (exampleRequest [] 0 0)"

text \<open>
  Three bound workers: \<open>coco\<close> with its traffic closed and idle, \<open>cocos\<close> with two
  requests in flight, \<open>alibaba\<close> with one.
\<close>

definition threeWorkers :: WorkerBroker where
  "threeWorkers =
     (emptyBroker exampleProfile)
       \<lparr>workerHeap := [0, 1, 2],
        workerMap := [''nut'' \<mapsto> \<lparr>status = BOUND, itemName = ''coco'', worker = Some 0\<rparr>,
                      ''2d'' \<mapsto> \<lparr>status = BOUND, itemName = ''cocos'', worker = Some 1\<rparr>,
                      ''seed'' \<mapsto> \<lparr>status = BOUND, itemName = ''alibaba'', worker = Some 2\<rparr>],
        workerStore := (\<lambda>_. exampleWorker [] [] 0 False)
           (0 := exampleWorker ''coco'' ''nut'' 0 True,
            1 := exampleWorker ''cocos'' ''2d'' 2 False,
            2 := exampleWorker ''alibaba'' ''seed'' 1 False),
        nextRef := 3\<rparr>"

text \<open>No worker, two requests waiting in the queue since the epochs 100 and 130.\<close>

definition twoQueued :: WorkerBroker where
  "twoQueued =
     (emptyBroker exampleProfile)
       \<lparr>requestQueue := [0, 1],
        requestQueueStatus := QUEUEING,
        requestStore := (\<lambda>_. exampleRequest [] 0 0)
           (0 := exampleRequest ''first'' 100 600,
            1 := exampleRequest ''second'' 130 630),
        nextRef := 2\<rparr>"

text \<open>A broker with the credential \<open>2d\<close> of the worker \<open>cocos\<close> registered and not bound.\<close>

definition onePending :: WorkerBroker where
  "onePending =
     (emptyBroker exampleProfile)
       \<lparr>workerMap := [''2d'' \<mapsto> \<lparr>status = PENDING, itemName = ''cocos'', worker = None\<rparr>]\<rparr>"

text \<open>The metadata of a request \<open>a\<close> that may wait until the epoch 600.\<close>

definition requestA :: Metadata where
  "requestA = \<lparr>requestId = ''a'', deadline = 600, debuggerTag = None\<rparr>"

text \<open>
  A profile with a rate limit of one token; a broker built with it that has spent its
  token on the request \<open>a\<close>; and that broker after its profile was replaced by one
  without a rate limit.
\<close>

definition limitedProfile :: FunctionProfile where
  "limitedProfile = exampleProfile\<lparr>rateLimit := Some 1\<rparr>"

definition spentBucket :: WorkerBroker where
  "spentBucket = run least_first (emptyBroker limitedProfile) [Invoke 100 requestA]"

definition staleBucket :: WorkerBroker where
  "staleBucket =
     run least_first (emptyBroker limitedProfile) [Invoke 100 requestA, UpdateProfile exampleProfile]"

text \<open>
  A disposable broker with one bound worker, idle and open, and two requests: \<open>a\<close>
  carries a debugger tag, \<open>b\<close> does not.
\<close>

definition disposableIdle :: WorkerBroker where
  "disposableIdle =
     (emptyBroker (exampleProfile\<lparr>profileDisposable := True\<rparr>))
       \<lparr>workerHeap := [0],
        workerMap := [''2d'' \<mapsto> \<lparr>status = BOUND, itemName = ''cocos'', worker = Some 0\<rparr>],
        workerStore := (\<lambda>_. exampleWorker [] [] 0 False)
           (0 := (exampleWorker ''cocos'' ''2d'' 0 False)\<lparr>disposable := True\<rparr>),
        nextRef := 1\<rparr>"

definition taggedA :: Metadata where
  "taggedA = \<lparr>requestId = ''a'', deadline = 600, debuggerTag = Some ''tag''\<rparr>"

definition requestB :: Metadata where
  "requestB = \<lparr>requestId = ''b'', deadline = 700, debuggerTag = None\<rparr>"

subsection \<open>Brokers of the control plane\<close>

text \<open>
  The broker \<open>lambda\<close> of the controller's test: \<open>coco\<close> with three requests in flight,
  \<open>cocos\<close> with one, \<open>alibaba\<close> with two, registered in this order; and a worker that is
  not running.
\<close>

definition lambdaBroker :: StatsBroker where
  "lambdaBroker =
     \<lparr>brokerName = ''lambda'', isInspector = False, brokerIsDisposable = False,
      workers =
        [\<lparr>statsName = ''coco'', statsCredential = ''nut'', registerTime = 10, running = True,
          dataActiveRequestCount = Some 3\<rparr>,
         \<lparr>statsName = ''cocos'', statsCredential = ''2d'', registerTime = 20, running = True,
          dataActiveRequestCount = Some 1\<rparr>,
         \<lparr>statsName = ''gone'', statsCredential = ''x'', registerTime = 5, running = False,
          dataActiveRequestCount = Some 0\<rparr>,
         \<lparr>statsName = ''alibaba'', statsCredential = ''seed of hope'', registerTime = 20,
          running = True, dataActiveRequestCount = Some 2\<rparr>],
      brokerData = Some \<lparr>shrinkStrategy = None\<rparr>\<rparr>"

text \<open>
  Three running workers of one broker, registered in this order: \<open>busy\<close> with two
  requests in flight, \<open>fresh\<close> that has no data yet, \<open>idle\<close> with one request.
\<close>

definition dataLessBroker :: StatsBroker where
  "dataLessBroker =
     \<lparr>brokerName = ''lambda'', isInspector = False, brokerIsDisposable = False,
      workers =
        [\<lparr>statsName = ''busy'', statsCredential = ''a'', registerTime = 10, running = True,
          dataActiveRequestCount = Some 2\<rparr>,
         \<lparr>statsName = ''fresh'', statsCredential = ''b'', registerTime = 30, running = True,
          dataActiveRequestCount = None\<rparr>,
         \<lparr>statsName = ''idle'', statsCredential = ''c'', registerTime = 20, running = True,
          dataActiveRequestCount = Some 1\<rparr>],
      brokerData = Some \<lparr>shrinkStrategy = Some ''LCC''\<rparr>\<rparr>"

text \<open>
  The scenario of the controller's test: \<open>func\<close> is to grow, \<open>lambda\<close> to lose two
  workers; the data plane confirms all but the last worker of the first broker; the state
  manager knows the workers of \<open>lambda\<close>.
\<close>

definition funcBroker :: StatsBroker where
  "funcBroker =
     \<lparr>brokerName = ''func'', isInspector = False, brokerIsDisposable = False,
      workers =
        [\<lparr>statsName = ''hello'', statsCredential = ''world'', registerTime = 1, running = True,
          dataActiveRequestCount = Some 10\<rparr>,
         \<lparr>statsName = ''foo'', statsCredential = ''bar'', registerTime = 2, running = True,
          dataActiveRequestCount = Some 10\<rparr>],
      brokerData = Some \<lparr>shrinkStrategy = None\<rparr>\<rparr>"

definition exampleDeltas :: "Delta list" where
  "exampleDeltas =
     [\<lparr>count = 1, broker = funcBroker\<rparr>,
      \<lparr>count = - 2, broker = lambdaBroker\<rparr>,
      \<lparr>count = - 1, broker = funcBroker\<lparr>brokerIsDisposable := True\<rparr>\<rparr>,
      \<lparr>count = - 1, broker = funcBroker\<lparr>isInspector := True\<rparr>\<rparr>]"

definition allButLast :: "ShrinkData list \<Rightarrow> ShrinkData list option" where
  "allButLast brokers =
     Some (case brokers of [] \<Rightarrow> [] | b # bs \<Rightarrow> b\<lparr>shrinkWorkers := butlast (shrinkWorkers b)\<rparr> # bs)"

definition lambdaWorkers :: "string \<Rightarrow> bool \<Rightarrow> string \<Rightarrow> StatsWorker option" where
  "lambdaWorkers fn insp n =
     (if fn = ''lambda'' \<and> \<not> insp then find (\<lambda>w. statsName w = n) (workers lambdaBroker) else None)"

section \<open>Properties\<close>

text \<open>The definitions that a run on a concrete state unfolds.\<close>

lemmas example_defs =
  exampleProfile_def exampleWorker_def exampleRequest_def emptyBroker_def newBroker_def

lemmas broker_defs =
  run_def invoke_def acquireToken_def getAvailableWorker_def least_first_def
  queueRequest_def createPendingRequest_def registerCredential_def isCredentialPending_def
  bindWorker_def tryConsumeQueue_def tryConsumeLoop.simps isWorkerFree_def
  maxActivateRequests_def brokerDisposable_def stopTimer_def pipe_begin_def pipe_dispatch_def
  truthyTag_def recordQueuedDuration_def updRequest_def updWorker_def emit_def Let_def

lemmas draw_defs = shrinkDraw_def drawStrategy_def mostIdleNWorkers_def newestNWorkers_def
  oldestNWorkers_def mostWhatNWorkers_def sortBy_def countAndMakeRun_def binaryInsert_def
  binarySearch.simps idleCompare_def newestCompare_def oldestCompare_def js_lt_def Let_def

lemma key_le_refl: "key_le a a"
  by (cases a) simp_all

lemma key_le_trans: "key_le a b \<Longrightarrow> key_le b c \<Longrightarrow> key_le a c"
  by (cases a; cases b; cases c) simp_all

lemma key_le_total: "key_le a b \<or> key_le b a"
  by (cases a; cases b) auto

lemma least_ref_mem: "least_ref k m xs \<in> set (m # xs)"
  by (induction xs arbitrary: m) (simp, force)

lemma least_ref_le_start: "key_le (k (least_ref k m xs)) (k m)"
proof (induction xs arbitrary: m)
  case Nil
  show ?case by (simp add: key_le_refl)
next
  case (Cons x xs)
  show ?case
  proof (cases "key_le (k m) (k x)")
    case True
    then show ?thesis using Cons.IH [of m] by simp
  next
    case False
    then have "key_le (k x) (k m)" using key_le_total by blast
    then show ?thesis using False Cons.IH [of x] key_le_trans by auto
  qed
qed

lemma least_ref_le: "x \<in> set (m # xs) \<Longrightarrow> key_le (k (least_ref k m xs)) (k x)"
proof (induction xs arbitrary: m)
  case Nil
  then show ?case by (simp add: key_le_refl)
next
  case (Cons y ys)
  let ?m' = "if key_le (k m) (k y) then m else y"
  have start: "key_le (k (least_ref k ?m' ys)) (k ?m')"
    by (rule least_ref_le_start)
  have m'_m: "key_le (k ?m') (k m)"
    using key_le_total [of "k m" "k y"] by (auto simp: key_le_refl)
  have m'_y: "key_le (k ?m') (k y)"
    by (auto simp: key_le_refl)
  from Cons.prems consider "x = m" | "x = y" | "x \<in> set ys" by auto
  then show ?case
  proof cases
    case 1
    then show ?thesis using start m'_m key_le_trans by (metis least_ref.simps(2))
  next
    case 2
    then show ?thesis using start m'_y key_le_trans by (metis least_ref.simps(2))
  next
    case 3
    then have "x \<in> set (?m' # ys)" by simp
    then show ?thesis using Cons.IH [of ?m'] by simp
  qed
qed

lemma least_first_contract: "heapify_contract least_first"
proof -
  have "mset (least_first k xs) = mset xs \<and>
        (\<forall>x \<in> set xs. key_le (k (hd (least_first k xs))) (k x))" for k xs
  proof (cases xs)
    case Nil
    then show ?thesis by (simp add: least_first_def)
  next
    case (Cons y ys)
    have "least_ref k y ys \<in> set xs" using least_ref_mem [of k y ys] Cons by simp
    then have "mset (remove1 (least_ref k y ys) xs) + {#least_ref k y ys#} = mset xs"
      by simp
    then have "mset (least_first k xs) = mset xs"
      using Cons by (simp add: least_first_def Let_def del: mset_remove1)
    moreover have "\<forall>x \<in> set xs. key_le (k (hd (least_first k xs))) (k x)"
      using Cons least_ref_le [of _ y ys k] by (simp add: least_first_def Let_def)
    ultimately show ?thesis by simp
  qed
  then show ?thesis unfolding heapify_contract_def by blast
qed

subsection \<open>Worker selection\<close>

lemma heapify_contract_set: "heapify_contract h \<Longrightarrow> set (h k xs) = set xs"
  unfolding heapify_contract_def by (metis mset_eq_setD)

lemma heapify_contract_hd:
  "heapify_contract h \<Longrightarrow> x \<in> set xs \<Longrightarrow> key_le (k (hd (h k xs))) (k x)"
  unfolding heapify_contract_def by blast

lemma heapKey_le_iff:
  "key_le (heapKey a) (heapKey b) \<longleftrightarrow>
     trafficOff b \<or> (\<not> trafficOff a \<and> activeRequestCount a \<le> activeRequestCount b)"
  by (simp add: heapKey_def)

text \<open>
  C2. Whatever the state of the broker, \<open>getAvailableWorker\<close> returns a worker of the
  heap only if its traffic is open and its \<open>activeRequestCount\<close> is below
  \<open>maxActivateRequests\<close>; the worker it returns has the least \<open>activeRequestCount\<close>
  of the workers whose traffic is open; and it returns nothing exactly when every worker
  has its traffic closed or is at \<open>maxActivateRequests\<close> (so also when there is no
  worker, and when the least-loaded open worker is at the bound). \<open>heapify\<close> is any
  function that meets the contract of the library's.
\<close>

theorem getAvailableWorker_selects:
  assumes h: "heapify_contract h"
  shows "(\<forall>r. snd (getAvailableWorker h s) = Some r \<longrightarrow>
            r \<in> set (workerHeap s)
            \<and> \<not> trafficOff (workerStore s r)
            \<and> activeRequestCount (workerStore s r) < maxActivateRequests s
            \<and> (\<forall>r' \<in> set (workerHeap s). \<not> trafficOff (workerStore s r') \<longrightarrow>
                  activeRequestCount (workerStore s r) \<le> activeRequestCount (workerStore s r')))
         \<and> (snd (getAvailableWorker h s) = None \<longleftrightarrow>
              (\<forall>r' \<in> set (workerHeap s). trafficOff (workerStore s r')
                    \<or> maxActivateRequests s \<le> activeRequestCount (workerStore s r')))"
proof -
  let ?k = "\<lambda>r. heapKey (workerStore s r)"
  let ?heap = "h ?k (workerHeap s)"
  have set_eq: "set ?heap = set (workerHeap s)"
    using h by (rule heapify_contract_set)
  show ?thesis
  proof (cases ?heap)
    case Nil
    then have "workerHeap s = []" using set_eq by simp
    then show ?thesis using Nil by (simp add: getAvailableWorker_def Let_def)
  next
    case (Cons r rest)
    then have r_in: "r \<in> set (workerHeap s)" using set_eq by (metis list.set_intros(1))
    have least: "key_le (?k r) (?k x)" if "x \<in> set (workerHeap s)" for x
      using heapify_contract_hd [OF h that, of ?k] Cons by simp
    have least': "trafficOff (workerStore s x) \<or>
        (\<not> trafficOff (workerStore s r) \<and>
          activeRequestCount (workerStore s r) \<le> activeRequestCount (workerStore s x))"
      if "x \<in> set (workerHeap s)" for x
      using least [OF that] by (simp add: heapKey_le_iff)
    show ?thesis
    proof (cases "\<not> trafficOff (workerStore s r)
        \<and> activeRequestCount (workerStore s r) < maxActivateRequests s")
      case True
      then have res: "snd (getAvailableWorker h s) = Some r"
        using Cons by (simp add: getAvailableWorker_def Let_def)
      show ?thesis using res True r_in least' by auto
    next
      case False
      then have res: "snd (getAvailableWorker h s) = None"
        using Cons by (simp add: getAvailableWorker_def Let_def)
      have "trafficOff (workerStore s x) \<or>
          maxActivateRequests s \<le> activeRequestCount (workerStore s x)"
        if "x \<in> set (workerHeap s)" for x
        using least' [OF that] False by auto
      then show ?thesis using res by simp
    qed
  qed
qed

theorem getAvailableWorker_selects_witness:
  "heapify_contract least_first
   \<and> snd (getAvailableWorker least_first threeWorkers) = Some 2
   \<and> \<not> trafficOff (workerStore threeWorkers 2)
   \<and> activeRequestCount (workerStore threeWorkers 2) < maxActivateRequests threeWorkers
   \<and> activeRequestCount (workerStore threeWorkers 2) \<le> activeRequestCount (workerStore threeWorkers 1)"
proof -
  have sel: "snd (getAvailableWorker least_first threeWorkers) = Some 2"
    by (simp add: getAvailableWorker_def least_first_def threeWorkers_def example_defs
        heapKey_def maxActivateRequests_def brokerDisposable_def Let_def)
  have open1: "\<not> trafficOff (workerStore threeWorkers 1)" and in1: "1 \<in> set (workerHeap threeWorkers)"
    by (simp_all add: threeWorkers_def example_defs)
  show ?thesis
    using getAvailableWorker_selects [OF least_first_contract, of threeWorkers] sel open1 in1
      least_first_contract
    by blast
qed

subsection \<open>A dispatch that fails\<close>

text \<open>
  C10. When \<open>Worker.pipe\<close> reaches \<open>delegate.trigger\<close> and the call throws, \<open>pipe\<close>
  rejects with the annotated error and \<open>activeRequestCount\<close> stays at its incremented
  value: no finish callback is attached (so the decrement, the \<open>downToZero\<close> emission and
  the continuation of the queue never run for this request), nothing is emitted and the
  queue is untouched. When the call returns, the callback is attached, and it is the only
  place that decrements.
\<close>

theorem pipe_trigger_throws_keeps_count:
  assumes "started = Returns ()
           \<or> \<not> (disposable (workerStore s r) \<and> truthyTag (debuggerTag (pipeMetadata s inp)))"
  shows "(let (s', res) = pipe now r inp started (Throws e) s in
            activeRequestCount (workerStore s' r) = activeRequestCount (workerStore s r) + 1
            \<and> res = Inl (Annotated e (pipeWaitMs now s inp) (name (workerStore s r)))
            \<and> finishCallbacks s' = finishCallbacks s
            \<and> requestQueue s' = requestQueue s
            \<and> EmitDownToZero r \<notin> set (effects s') - set (effects s)
            \<and> (r \<notin> set (finishCallbacks s) \<longrightarrow> response_finished later r s' = s'))
         \<and> (let (s', res) = pipe now r inp started (Returns ret) s in
            activeRequestCount (workerStore s' r) = activeRequestCount (workerStore s r) + 1
            \<and> finishCallbacks s' = finishCallbacks s @ [r])"
  using assms
  by (auto simp: pipe_def pipe_begin_def pipe_dispatch_def pipe_inspector_done_def
      pipe_trigger_done_def emit_def updWorker_def response_finished_def Let_def
      split: if_splits)

theorem pipe_trigger_throws_keeps_count_witness:
  "activeRequestCount (workerStore threeWorkers 1) = 2
   \<and> activeRequestCount (workerStore (fst (pipe 5 1
        (Direct \<lparr>requestId = ''a'', deadline = 100, debuggerTag = None\<rparr>)
        (Returns ()) (Throws (Error (Text ''boom''))) threeWorkers)) 1) = 3
   \<and> finishCallbacks (fst (pipe 5 1
        (Direct \<lparr>requestId = ''a'', deadline = 100, debuggerTag = None\<rparr>)
        (Returns ()) (Throws (Error (Text ''boom''))) threeWorkers)) = []"
proof -
  have a: "activeRequestCount (workerStore threeWorkers 1) = 2"
    and f: "finishCallbacks threeWorkers = []"
    by (simp_all add: threeWorkers_def example_defs)
  show ?thesis
    using pipe_trigger_throws_keeps_count [of "Returns ()" threeWorkers 1
        "Direct \<lparr>requestId = ''a'', deadline = 100, debuggerTag = None\<rparr>" 5
        "Error (Text ''boom'')" 0
        "\<lparr>body = ''ok'', queueing = 0, workerName = []\<rparr>"] a f
    by (simp add: case_prod_beta)
qed

subsection \<open>Queue timeout\<close>

text \<open>
  C4. A pending request that is still queued, with its timer armed and its promise not
  settled (it was neither dispatched nor fast-failed: both stop the timer), whose timer
  fires: its \<open>available\<close> flag is false, its node is out of the queue, its promise is
  rejected with a \<open>DEADLINE_EXCEEDED\<close> error, and the histogram of queued durations
  gets the time the request has waited.
\<close>

theorem timerFired_evicts:
  assumes "timer (requestStore s q) = Armed"
    and "q \<in> set (requestQueue s)"
    and "distinct (requestQueue s)"
    and "deferred (requestStore s q) = None"
  shows "(let s' = timerFired now q s in
            \<not> available (requestStore s' q)
            \<and> requestQueue s' = remove1 q (requestQueue s)
            \<and> q \<notin> set (requestQueue s')
            \<and> deferred (requestStore s' q) =
                Some (Rejected (RpcError
                  (WaitingForWorkerTimedOut (deadline (metadata (requestStore s q)))
                     (requestId (metadata (requestStore s q))))
                  DEADLINE_EXCEEDED))
            \<and> effects s' =
                effects s @ [QueuedRequestDurationRecord (now - startEpoch (requestStore s q))])"
  using assms
  by (simp add: timerFired_def settle_def recordQueuedDuration_def updRequest_def emit_def
      Let_def)

theorem timerFired_evicts_witness:
  "timer (requestStore twoQueued 0) = Armed
   \<and> requestQueue (timerFired 600 0 twoQueued) = [1]
   \<and> \<not> available (requestStore (timerFired 600 0 twoQueued) 0)
   \<and> deferred (requestStore (timerFired 600 0 twoQueued) 0) =
       Some (Rejected (RpcError (WaitingForWorkerTimedOut 600 ''first'') DEADLINE_EXCEEDED))
   \<and> effects (timerFired 600 0 twoQueued) = [QueuedRequestDurationRecord 500]"
proof -
  have pre: "timer (requestStore twoQueued 0) = Armed" "0 \<in> set (requestQueue twoQueued)"
    "distinct (requestQueue twoQueued)" "deferred (requestStore twoQueued 0) = None"
    by (simp_all add: twoQueued_def example_defs)
  have vals: "requestQueue twoQueued = [0, 1]" "effects twoQueued = []"
    "startEpoch (requestStore twoQueued 0) = 100"
    "deadline (metadata (requestStore twoQueued 0)) = 600"
    "requestId (metadata (requestStore twoQueued 0)) = ''first''"
    by (simp_all add: twoQueued_def example_defs)
  show ?thesis
    using timerFired_evicts [OF pre, of 600] pre(1) vals by (simp add: Let_def)
qed

subsection \<open>Fast fail\<close>

lemma failedRequest_idem: "failedRequest err (failedRequest err p) = failedRequest err p"
  by (simp add: failedRequest_def)

lemma failedRequest_startEpoch: "startEpoch (failedRequest err p) = startEpoch p"
  by (simp add: failedRequest_def)

lemma failEntry_eq:
  "failEntry now err t q =
     t\<lparr>requestStore := (requestStore t)(q := failedRequest err (requestStore t q)),
       effects := effects t @ [QueuedRequestDurationRecord (now - startEpoch (requestStore t q))]\<rparr>"
  by (simp add: failEntry_def recordQueuedDuration_def settle_def stopTimer_def updRequest_def
      emit_def failedRequest_def)

lemma foldl_failEntry:
  "foldl (failEntry now err) t qs =
     t\<lparr>requestStore := (\<lambda>q. if q \<in> set qs then failedRequest err (requestStore t q)
                              else requestStore t q),
       effects := effects t @
         map (\<lambda>q. QueuedRequestDurationRecord (now - startEpoch (requestStore t q))) qs\<rparr>"
proof (induction qs arbitrary: t)
  case Nil
  show ?case by simp
next
  case (Cons a qs)
  show ?case
    apply (simp add: Cons.IH)
    apply (simp add: failEntry_eq failedRequest_startEpoch failedRequest_idem fun_eq_iff)
    done
qed

lemma fastFail_eq:
  "fastFailAllPendingsDueToStartError now req s =
     (if \<not> fatal req \<and> \<not> fastFailRequestsOnStarting (profile s) then s
      else foldl (failEntry now (Error (Text (failMessage req)))) (s\<lparr>requestQueue := []\<rparr>)
             (requestQueue s))"
proof -
  have "(\<lambda>t q. recordQueuedDuration now q (settle q (Rejected e) (stopTimer q t))) = failEntry now e"
    for e by (simp add: failEntry_def fun_eq_iff)
  then show ?thesis by (simp add: fastFailAllPendingsDueToStartError_def Let_def)
qed

text \<open>
  C7. \<open>fastFailAllPendingsDueToStartError(req)\<close> with \<open>req.fatal\<close> or the profile's
  \<open>fastFailRequestsOnStarting\<close>: the queue is replaced by an empty one, the timer of
  every entry is stopped, every entry (its promise still open, as that of a queued request
  is) is rejected with an error carrying \<open>req.message\<close>, and the histogram gets one
  duration for each entry, in the order of the queue. Otherwise the call changes nothing.
\<close>

theorem fastFail_rejects_all:
  "(fatal req \<or> fastFailRequestsOnStarting (profile s) \<longrightarrow>
      (let s' = fastFailAllPendingsDueToStartError now req s in
         requestQueue s' = []
         \<and> (\<forall>q \<in> set (requestQueue s).
               timer (requestStore s' q) = Cleared
               \<and> (deferred (requestStore s q) = None \<longrightarrow>
                    deferred (requestStore s' q) = Some (Rejected (Error (Text (failMessage req))))))
         \<and> effects s' = effects s @
              map (\<lambda>q. QueuedRequestDurationRecord (now - startEpoch (requestStore s q)))
                (requestQueue s)))
   \<and> (\<not> fatal req \<and> \<not> fastFailRequestsOnStarting (profile s) \<longrightarrow>
        fastFailAllPendingsDueToStartError now req s = s)"
  by (auto simp: fastFail_eq foldl_failEntry failedRequest_def Let_def)

theorem fastFail_rejects_all_witness:
  "requestQueue twoQueued = [0, 1]
   \<and> requestQueue (fastFailAllPendingsDueToStartError 200 \<lparr>fatal = True, failMessage = ''no''\<rparr> twoQueued) = []
   \<and> timer (requestStore (fastFailAllPendingsDueToStartError 200 \<lparr>fatal = True, failMessage = ''no''\<rparr> twoQueued) 1) = Cleared
   \<and> deferred (requestStore (fastFailAllPendingsDueToStartError 200 \<lparr>fatal = True, failMessage = ''no''\<rparr> twoQueued) 1)
        = Some (Rejected (Error (Text ''no'')))
   \<and> effects (fastFailAllPendingsDueToStartError 200 \<lparr>fatal = True, failMessage = ''no''\<rparr> twoQueued)
        = [QueuedRequestDurationRecord 100, QueuedRequestDurationRecord 70]
   \<and> fastFailAllPendingsDueToStartError 200 \<lparr>fatal = False, failMessage = ''no''\<rparr> twoQueued = twoQueued"
proof -
  have vals: "requestQueue twoQueued = [0, 1]" "effects twoQueued = []"
    "startEpoch (requestStore twoQueued 0) = 100" "startEpoch (requestStore twoQueued 1) = 130"
    "deferred (requestStore twoQueued 1) = None"
    "\<not> fastFailRequestsOnStarting (profile twoQueued)"
    by (simp_all add: twoQueued_def example_defs)
  show ?thesis
    using fastFail_rejects_all [of "\<lparr>fatal = True, failMessage = ''no''\<rparr>" twoQueued 200]
      fastFail_rejects_all [of "\<lparr>fatal = False, failMessage = ''no''\<rparr>" twoQueued 200] vals
    by (simp add: Let_def)
qed

subsection \<open>Admission\<close>

text \<open>What keeps the token bucket and the profile: everything but \<open>invoke\<close> and \<open>updateProfile\<close>.\<close>

lemma tryConsumeLoop_bucket: "tokenBucket (tryConsumeLoop now r s) = tokenBucket s"
proof (induction now r s rule: tryConsumeLoop.induct)
  case (1 now r s)
  show ?case
  proof (cases "requestQueue s")
    case Nil
    then show ?thesis by (simp add: tryConsumeLoop.simps [of now r s])
  next
    case (Cons q rest)
    show ?thesis
      using Cons "1.IH"
      apply (subst tryConsumeLoop.simps)
      apply (simp add: Let_def)
      apply (auto simp: stopTimer_def pipe_begin_def pipe_dispatch_def recordQueuedDuration_def
        emit_def updWorker_def updRequest_def Let_def)
      done
  qed
qed

lemma tryConsumeLoop_profile: "profile (tryConsumeLoop now r s) = profile s"
proof (induction now r s rule: tryConsumeLoop.induct)
  case (1 now r s)
  show ?case
  proof (cases "requestQueue s")
    case Nil
    then show ?thesis by (simp add: tryConsumeLoop.simps [of now r s])
  next
    case (Cons q rest)
    show ?thesis
      using Cons "1.IH"
      apply (subst tryConsumeLoop.simps)
      apply (simp add: Let_def)
      apply (auto simp: stopTimer_def pipe_begin_def pipe_dispatch_def recordQueuedDuration_def
        emit_def updWorker_def updRequest_def Let_def)
      done
  qed
qed

lemma tryConsumeLoop_frame:
  "tokenBucket (tryConsumeLoop now r s) = tokenBucket s
   \<and> profile (tryConsumeLoop now r s) = profile s"
  by (simp add: tryConsumeLoop_bucket tryConsumeLoop_profile)

lemma tryConsumeQueue_frame:
  "tokenBucket (tryConsumeQueue now r s) = tokenBucket s
   \<and> profile (tryConsumeQueue now r s) = profile s"
  by (simp add: tryConsumeQueue_def Let_def tryConsumeLoop_frame)

lemma closeTraffic_frame:
  "tokenBucket (closeTraffic r s) = tokenBucket s \<and> profile (closeTraffic r s) = profile s"
  by (simp add: closeTraffic_def emit_def updWorker_def Let_def)

lemma queueRequest_frame:
  "tokenBucket (fst (queueRequest now md s)) = tokenBucket s
   \<and> profile (fst (queueRequest now md s)) = profile s"
  by (simp add: queueRequest_def createPendingRequest_def emit_def Let_def)

lemma invoke_frame:
  "(tokenBucket (fst (invoke h now md s)) = None) = (tokenBucket s = None)
   \<and> profile (fst (invoke h now md s)) = profile s"
proof -
  obtain s1 ok where a: "acquireToken s = (s1, ok)" by (cases "acquireToken s")
  have s1: "(tokenBucket s1 = None) = (tokenBucket s = None)" "profile s1 = profile s"
    using a by (auto simp: acquireToken_def split: option.splits prod.splits)
  obtain s2 w where g: "getAvailableWorker h s1 = (s2, w)" by (cases "getAvailableWorker h s1")
  have s2: "tokenBucket s2 = tokenBucket s1" "profile s2 = profile s1"
    using g by (auto simp: getAvailableWorker_def Let_def split: list.splits if_splits)
  have p: "tokenBucket (fst (pipe_begin r md s2)) = tokenBucket s2"
    "profile (fst (pipe_begin r md s2)) = profile s2" for r
    by (simp_all add: pipe_begin_def pipe_dispatch_def emit_def updWorker_def)
  show ?thesis
    using a g s1 s2 p queueRequest_frame [of now md s1] queueRequest_frame [of now md s2]
    by (simp add: invoke_def split: RequestQueueStatus.split option.split)
qed

lemma step_bucket: "(tokenBucket (step h s op) = None) = (tokenBucket s = None)"
proof (cases op)
  case (Invoke now md)
  then show ?thesis by (simp add: invoke_frame)
next
  case (InvokeSettled r res)
  then show ?thesis by (simp add: invoke_settled_def closeTraffic_frame)
next
  case (InspectorDone r md res)
  then show ?thesis
    by (simp add: pipe_inspector_done_def pipe_dispatch_def emit_def updWorker_def
        split: outcome.split)
next
  case (TriggerDone r waitMs res)
  then show ?thesis by (simp add: pipe_trigger_done_def split: outcome.split)
next
  case (ConsumeSettled q r res)
  then show ?thesis
    by (simp add: consume_settled_def closeTraffic_frame settle_def updRequest_def Let_def
        split: sum.split)
next
  case (ResponseFinished now r)
  then show ?thesis
    by (simp add: response_finished_def continueConsumeQueue_def tryConsumeQueue_frame
        emitDownToZero_def emit_def updWorker_def Let_def)
next
  case (TimerFired now q)
  then show ?thesis
    by (simp add: timerFired_def settle_def recordQueuedDuration_def updRequest_def emit_def
        Let_def)
next
  case (FastFail now req)
  then show ?thesis by (simp add: fastFail_eq foldl_failEntry)
next
  case (TryConsumeQueue now r)
  then show ?thesis by (simp add: tryConsumeQueue_frame)
next
  case (CloseTraffic r)
  then show ?thesis by (simp add: closeTraffic_frame)
next
  case (RegisterCredential n c)
  then show ?thesis by (simp add: registerCredential_def)
next
  case (BindWorker now c init)
  then show ?thesis
    by (simp add: bindWorker_def tryConsumeQueue_frame emit_def Let_def
        split: option.split outcome.split)
next
  case (RemoveWorker c)
  then show ?thesis by (simp add: removeWorker_def)
next
  case (UpdateProfile p)
  then show ?thesis by (simp add: updateProfile_def)
qed

lemma step_profile:
  assumes "\<not> isUpdateProfile op"
  shows "profile (step h s op) = profile s"
proof (cases op)
  case (Invoke now md)
  then show ?thesis by (simp add: invoke_frame)
next
  case (InvokeSettled r res)
  then show ?thesis by (simp add: invoke_settled_def closeTraffic_frame)
next
  case (InspectorDone r md res)
  then show ?thesis
    by (simp add: pipe_inspector_done_def pipe_dispatch_def emit_def updWorker_def
        split: outcome.split)
next
  case (TriggerDone r waitMs res)
  then show ?thesis by (simp add: pipe_trigger_done_def split: outcome.split)
next
  case (ConsumeSettled q r res)
  then show ?thesis
    by (simp add: consume_settled_def closeTraffic_frame settle_def updRequest_def Let_def
        brokerDisposable_def split: sum.split)
next
  case (ResponseFinished now r)
  then show ?thesis
    by (simp add: response_finished_def continueConsumeQueue_def tryConsumeQueue_frame
        emitDownToZero_def emit_def updWorker_def Let_def)
next
  case (TimerFired now q)
  then show ?thesis
    by (simp add: timerFired_def settle_def recordQueuedDuration_def updRequest_def emit_def
        Let_def)
next
  case (FastFail now req)
  then show ?thesis by (simp add: fastFail_eq foldl_failEntry)
next
  case (TryConsumeQueue now r)
  then show ?thesis by (simp add: tryConsumeQueue_frame)
next
  case (CloseTraffic r)
  then show ?thesis by (simp add: closeTraffic_frame)
next
  case (RegisterCredential n c)
  then show ?thesis by (simp add: registerCredential_def)
next
  case (BindWorker now c init)
  then show ?thesis
    by (simp add: bindWorker_def tryConsumeQueue_frame emit_def Let_def
        split: option.split outcome.split)
next
  case (RemoveWorker c)
  then show ?thesis by (simp add: removeWorker_def)
next
  case (UpdateProfile p)
  then show ?thesis using assms by simp
qed

lemma run_bucket: "(tokenBucket (run h s ops) = None) = (tokenBucket s = None)"
  unfolding run_def by (induction ops arbitrary: s) (simp_all add: step_bucket)

lemma run_profile: "\<forall>op \<in> set ops. \<not> isUpdateProfile op \<Longrightarrow> profile (run h s ops) = profile s"
  unfolding run_def by (induction ops arbitrary: s) (simp_all add: step_profile)

text \<open>
  C9, as the specification states it, fails: a broker without a configured rate limit can
  refuse a call. The broker was built with a rate limit of one token and spent it; its
  profile was then replaced by one without a rate limit; the bucket of the constructor is
  still there, and the next \<open>invoke\<close> fails with \<open>RESOURCE_EXHAUSTED\<close>.
\<close>

theorem invoke_rate_limit_counterexample:
  "rateLimit (profile staleBucket) = None
   \<and> snd (invoke least_first 200 requestB staleBucket)
       = Failed (RpcError RateLimitExceeded RESOURCE_EXHAUSTED)"
  by (simp add: staleBucket_def limitedProfile_def updateProfile_def acquire_def broker_defs
      requestA_def requestB_def example_defs)

text \<open>
  C9, amended. The token bucket of a broker is made by the constructor and by nothing
  else: a broker has one exactly when the profile it was built with had a rate limit,
  whatever \<open>updateProfile\<close> has set since (and as long as the profile has not been
  updated, that profile is the broker's). With a token bucket whose \<open>acquire\<close> returns
  false, \<open>invoke\<close> fails with a \<open>RESOURCE_EXHAUSTED\<close> error; no pending request is made,
  the queue and its status are as before, and nothing is dispatched or broadcast (no worker
  changes, no effect). Without a token bucket the admission always succeeds: the token is
  taken as acquired, and \<open>invoke\<close> does not fail with that error.
\<close>

theorem invoke_rate_limit:
  "(\<forall>b. tokenBucket s = Some b \<and> \<not> snd (acquire b) \<longrightarrow>
      (let (s', res) = invoke h now md s in
         res = Failed (RpcError RateLimitExceeded RESOURCE_EXHAUSTED)
         \<and> requestQueue s' = requestQueue s
         \<and> requestQueueStatus s' = requestQueueStatus s
         \<and> requestStore s' = requestStore s
         \<and> nextRef s' = nextRef s
         \<and> workerStore s' = workerStore s
         \<and> workerHeap s' = workerHeap s
         \<and> effects s' = effects s))
   \<and> (tokenBucket s = None \<longrightarrow>
        acquireToken s = (s, True)
        \<and> snd (invoke h now md s) \<noteq> Failed (RpcError RateLimitExceeded RESOURCE_EXHAUSTED))
   \<and> ((tokenBucket (run h (newBroker p insp w0 p0) ops) = None) = (rateLimit p = None))
   \<and> ((\<forall>op \<in> set ops. \<not> isUpdateProfile op) \<longrightarrow>
        profile (run h (newBroker p insp w0 p0) ops) = p)"
proof -
  have "snd (queueRequest now md t) \<noteq> Failed (RpcError RateLimitExceeded RESOURCE_EXHAUSTED)" for t
    by (simp add: queueRequest_def createPendingRequest_def Let_def)
  then have open_door: "tokenBucket s = None \<Longrightarrow>
      snd (invoke h now md s) \<noteq> Failed (RpcError RateLimitExceeded RESOURCE_EXHAUSTED)"
    by (simp add: invoke_def acquireToken_def
        split: RequestQueueStatus.split prod.split option.split)
  have halves: "(\<forall>b. tokenBucket s = Some b \<and> \<not> snd (acquire b) \<longrightarrow>
      (let (s', res) = invoke h now md s in
         res = Failed (RpcError RateLimitExceeded RESOURCE_EXHAUSTED)
         \<and> requestQueue s' = requestQueue s
         \<and> requestQueueStatus s' = requestQueueStatus s
         \<and> requestStore s' = requestStore s
         \<and> nextRef s' = nextRef s
         \<and> workerStore s' = workerStore s
         \<and> workerHeap s' = workerHeap s
         \<and> effects s' = effects s))
   \<and> (tokenBucket s = None \<longrightarrow>
        acquireToken s = (s, True)
        \<and> snd (invoke h now md s) \<noteq> Failed (RpcError RateLimitExceeded RESOURCE_EXHAUSTED))"
    using open_door by (auto simp: invoke_def acquireToken_def split: prod.splits)
  have built: "(tokenBucket (run h (newBroker p insp w0 p0) ops) = None) = (rateLimit p = None)"
    by (simp add: run_bucket newBroker_def split: option.split)
  have kept: "(\<forall>op \<in> set ops. \<not> isUpdateProfile op) \<longrightarrow>
      profile (run h (newBroker p insp w0 p0) ops) = p"
    by (simp add: run_profile newBroker_def)
  show ?thesis using halves built kept by (intro conjI) blast+
qed

theorem invoke_rate_limit_witness:
  "rateLimit (profile spentBucket) = Some 1
   \<and> tokenBucket spentBucket = Some \<lparr>tokens = 0\<rparr>
   \<and> \<not> snd (acquire \<lparr>tokens = 0\<rparr>)
   \<and> snd (invoke least_first 200 requestB spentBucket)
        = Failed (RpcError RateLimitExceeded RESOURCE_EXHAUSTED)
   \<and> requestQueue spentBucket = [0]
   \<and> requestQueue (fst (invoke least_first 200 requestB spentBucket)) = [0]
   \<and> rateLimit (profile threeWorkers) = None
   \<and> tokenBucket threeWorkers = None
   \<and> snd (invoke least_first 200 requestB threeWorkers)
        \<noteq> Failed (RpcError RateLimitExceeded RESOURCE_EXHAUSTED)
   \<and> profile spentBucket = limitedProfile"
proof -
  have vals: "rateLimit (profile spentBucket) = Some 1"
    "tokenBucket spentBucket = Some \<lparr>tokens = 0\<rparr>" "requestQueue spentBucket = [0]"
    by (simp_all add: spentBucket_def limitedProfile_def acquire_def broker_defs requestA_def
        example_defs)
  have more: "\<not> snd (acquire \<lparr>tokens = 0\<rparr>)" "rateLimit (profile threeWorkers) = None"
    "tokenBucket threeWorkers = None"
    by (simp_all add: threeWorkers_def example_defs acquire_def)
  have ops: "\<forall>op \<in> set [Invoke 100 requestA]. \<not> isUpdateProfile op"
    by simp
  have refused: "snd (invoke least_first 200 requestB spentBucket)
        = Failed (RpcError RateLimitExceeded RESOURCE_EXHAUSTED)
      \<and> requestQueue (fst (invoke least_first 200 requestB spentBucket)) = [0]"
    using invoke_rate_limit [where s = spentBucket and h = least_first and now = 200
        and md = requestB] vals more(1)
    by (simp add: case_prod_beta)
  have admitted: "snd (invoke least_first 200 requestB threeWorkers)
        \<noteq> Failed (RpcError RateLimitExceeded RESOURCE_EXHAUSTED)"
    using invoke_rate_limit [where s = threeWorkers and h = least_first and now = 200
        and md = requestB] more(3)
    by simp
  have "profile (run least_first (newBroker limitedProfile False (exampleWorker [] [] 0 False)
        (exampleRequest [] 0 0)) [Invoke 100 requestA]) = limitedProfile"
    using invoke_rate_limit [where h = least_first and p = limitedProfile and insp = False
        and ?w0.0 = "exampleWorker [] [] 0 False" and ?p0.0 = "exampleRequest [] 0 0"
        and ops = "[Invoke 100 requestA]"] ops
    by blast
  then have prof: "profile spentBucket = limitedProfile"
    by (simp add: spentBucket_def emptyBroker_def)
  show ?thesis
    using vals more refused admitted prof by blast
qed

subsection \<open>Binding a worker\<close>

text \<open>
  C8, as the specification states it, fails: a credential the broker does not know is not
  \<open>Pending\<close>, and \<open>bindWorker\<close> returns without an error for it.
\<close>

theorem bindWorker_unknown_credential_counterexample:
  "\<not> isCredentialPending (emptyBroker exampleProfile) ''2d''
   \<and> snd (bindWorker 0 ''2d'' (Returns ()) (emptyBroker exampleProfile)) = Inr ()"
  by (simp add: bindWorker_def isCredentialPending_def example_defs emit_def)

text \<open>
  C8, amended. \<open>bindWorker(credential)\<close> fails with an error when the credential is
  registered and not \<open>Pending\<close>, the broker unchanged; for a credential that is not
  registered it logs an error and returns without failing, the broker otherwise unchanged.
  When the credential is \<open>Pending\<close> and the delegate's \<open>init\<close> fails,
  \<open>resetPeer(credential)\<close> is called after it, the error of \<open>init\<close> is the error of
  \<open>bindWorker\<close>, and the broker is as before: the entry of the credential is the same
  \<open>Pending\<close> entry, the heap has no new worker.
\<close>

theorem bindWorker_errors:
  "(workerMap s c = None \<longrightarrow>
      bindWorker now c init s = (emit (LogError ''No credential bound to the broker'') s, Inr ()))
   \<and> (\<forall>item. workerMap s c = Some item \<and> status item \<noteq> PENDING \<longrightarrow>
        bindWorker now c init s = (s, Inl (Error (CredentialNotRegistered c (profileName (profile s))))))
   \<and> (\<forall>item e. workerMap s c = Some item \<and> status item = PENDING \<and> init = Throws e \<longrightarrow>
        (let (s', res) = bindWorker now c init s in
           res = Inl e
           \<and> s' = s\<lparr>effects := effects s @
                  [DelegateInit c (initializationTimeout (profile s) + now), DelegateResetPeer c]\<rparr>
           \<and> workerMap s' c = Some item
           \<and> workerHeap s' = workerHeap s))"
  by (auto simp: bindWorker_def isCredentialPending_def emit_def Let_def)

theorem bindWorker_errors_witness:
  "workerMap onePending ''2d'' = Some \<lparr>status = PENDING, itemName = ''cocos'', worker = None\<rparr>
   \<and> snd (bindWorker 5 ''2d'' (Throws (Error (Text ''init failed''))) onePending)
        = Inl (Error (Text ''init failed''))
   \<and> effects (fst (bindWorker 5 ''2d'' (Throws (Error (Text ''init failed''))) onePending))
        = [DelegateInit ''2d'' 10005, DelegateResetPeer ''2d'']
   \<and> workerMap (fst (bindWorker 5 ''2d'' (Throws (Error (Text ''init failed''))) onePending)) ''2d''
        = Some \<lparr>status = PENDING, itemName = ''cocos'', worker = None\<rparr>
   \<and> workerHeap (fst (bindWorker 5 ''2d'' (Throws (Error (Text ''init failed''))) onePending)) = []
   \<and> workerMap threeWorkers ''2d'' = Some \<lparr>status = BOUND, itemName = ''cocos'', worker = Some 1\<rparr>
   \<and> bindWorker 5 ''2d'' (Returns ()) threeWorkers
        = (threeWorkers, Inl (Error (CredentialNotRegistered ''2d'' ''lambda'')))
   \<and> workerMap onePending ''nut'' = None
   \<and> snd (bindWorker 5 ''nut'' (Returns ()) onePending) = Inr ()"
proof -
  have vals: "workerMap onePending ''2d'' = Some \<lparr>status = PENDING, itemName = ''cocos'', worker = None\<rparr>"
    "effects onePending = []" "workerHeap onePending = []"
    "initializationTimeout (profile onePending) = 10000"
    "workerMap onePending ''nut'' = None"
    by (simp_all add: onePending_def example_defs)
  have bound: "workerMap threeWorkers ''2d'' = Some \<lparr>status = BOUND, itemName = ''cocos'', worker = Some 1\<rparr>"
    "profileName (profile threeWorkers) = ''lambda''"
    by (simp_all add: threeWorkers_def example_defs)
  show ?thesis
    using bindWorker_errors [of onePending "''2d''" 5 "Throws (Error (Text ''init failed''))"]
      bindWorker_errors [of threeWorkers "''2d''" 5 "Returns ()"]
      bindWorker_errors [of onePending "''nut''" 5 "Returns ()"] vals bound
    by (simp add: case_prod_beta)
qed

subsection \<open>Queue status\<close>

lemma tryConsumeLoop_status:
  "requestQueueStatus (tryConsumeLoop now r s) = requestQueueStatus s"
proof (induction now r s rule: tryConsumeLoop.induct)
  case (1 now r s)
  show ?case
  proof (cases "requestQueue s")
    case Nil
    then show ?thesis by (simp add: tryConsumeLoop.simps [of now r s])
  next
    case (Cons q rest)
    show ?thesis
      using Cons "1.IH"
      apply (subst tryConsumeLoop.simps)
      apply (simp add: Let_def)
      apply (auto simp: stopTimer_def pipe_begin_def pipe_dispatch_def recordQueuedDuration_def
        emit_def updWorker_def updRequest_def Let_def)
      done
  qed
qed

lemma tryConsumeLoop_empty: "requestQueue s = [] \<Longrightarrow> tryConsumeLoop now r s = s"
  by (simp add: tryConsumeLoop.simps [of now r s])

lemma tryConsumeQueue_exact:
  assumes "queue_inv s"
  shows "queue_exact (tryConsumeQueue now r s)"
proof (cases "requestQueue (tryConsumeLoop now r s) = []")
  case True
  then show ?thesis by (simp add: tryConsumeQueue_def queue_exact_def Let_def)
next
  case False
  then have "requestQueue s \<noteq> []" using tryConsumeLoop_empty [of s now r] by auto
  then have "requestQueueStatus s \<noteq> PASS_THROUGH" using assms by (auto simp: queue_inv_def)
  then show ?thesis
    using False by (simp add: tryConsumeQueue_def queue_exact_def Let_def tryConsumeLoop_status)
qed

lemma queue_exact_inv: "queue_exact s \<Longrightarrow> queue_inv s"
  by (simp add: queue_exact_def queue_inv_def)

lemma tryConsumeQueue_inv: "queue_inv s \<Longrightarrow> queue_inv (tryConsumeQueue now r s)"
  by (simp add: tryConsumeQueue_exact queue_exact_inv)

lemma queueRequest_exact: "queue_exact s \<Longrightarrow> queue_exact (fst (queueRequest now md s))"
  by (simp add: queueRequest_def createPendingRequest_def emit_def queue_exact_def Let_def)

lemma queueRequest_inv: "queue_inv s \<Longrightarrow> queue_inv (fst (queueRequest now md s))"
  by (simp add: queueRequest_def createPendingRequest_def emit_def queue_inv_def Let_def)

lemma pipe_begin_queue:
  "requestQueue (fst (pipe_begin r md s)) = requestQueue s"
  "requestQueueStatus (fst (pipe_begin r md s)) = requestQueueStatus s"
  by (simp_all add: pipe_begin_def pipe_dispatch_def emit_def updWorker_def)

lemma getAvailableWorker_queue:
  "requestQueue (fst (getAvailableWorker h s)) = requestQueue s"
  "requestQueueStatus (fst (getAvailableWorker h s)) = requestQueueStatus s"
  by (simp_all add: getAvailableWorker_def Let_def split: list.split)

lemma acquireToken_queue:
  "requestQueue (fst (acquireToken s)) = requestQueue s"
  "requestQueueStatus (fst (acquireToken s)) = requestQueueStatus s"
  by (simp_all add: acquireToken_def split: option.split prod.split)

lemma invoke_exact:
  assumes "queue_exact s"
  shows "queue_exact (fst (invoke h now md s))"
proof -
  obtain s1 ok where a: "acquireToken s = (s1, ok)" by (cases "acquireToken s")
  have s1: "queue_exact s1"
    using assms acquireToken_queue [of s] a by (simp add: queue_exact_def)
  obtain s2 w where g: "getAvailableWorker h s1 = (s2, w)" by (cases "getAvailableWorker h s1")
  have s2: "queue_exact s2"
    using s1 getAvailableWorker_queue [of h s1] g by (simp add: queue_exact_def)
  have p: "queue_exact (fst (pipe_begin r md s2))" for r
    using s2 pipe_begin_queue [of r md s2] by (simp add: queue_exact_def)
  show ?thesis
    using a g s1 s2 p queueRequest_exact [of s1 now md] queueRequest_exact [of s2 now md]
    by (simp add: invoke_def split: RequestQueueStatus.split option.split)
qed

lemma invoke_inv:
  assumes "queue_inv s"
  shows "queue_inv (fst (invoke h now md s))"
proof -
  obtain s1 ok where a: "acquireToken s = (s1, ok)" by (cases "acquireToken s")
  have s1: "queue_inv s1"
    using assms acquireToken_queue [of s] a by (simp add: queue_inv_def)
  obtain s2 w where g: "getAvailableWorker h s1 = (s2, w)" by (cases "getAvailableWorker h s1")
  have s2: "queue_inv s2"
    using s1 getAvailableWorker_queue [of h s1] g by (simp add: queue_inv_def)
  have p: "queue_inv (fst (pipe_begin r md s2))" for r
    using s2 pipe_begin_queue [of r md s2] by (simp add: queue_inv_def)
  show ?thesis
    using a g s1 s2 p queueRequest_inv [of s1 now md] queueRequest_inv [of s2 now md]
    by (simp add: invoke_def split: RequestQueueStatus.split option.split)
qed

lemma closeTraffic_queue:
  "requestQueue (closeTraffic r s) = requestQueue s"
  "requestQueueStatus (closeTraffic r s) = requestQueueStatus s"
  by (simp_all add: closeTraffic_def emit_def updWorker_def Let_def)

lemma settle_queue:
  "requestQueue (settle q v s) = requestQueue s"
  "requestQueueStatus (settle q v s) = requestQueueStatus s"
  by (simp_all add: settle_def updRequest_def)

lemma emitDownToZero_queue:
  "requestQueue (emitDownToZero r s) = requestQueue s"
  "requestQueueStatus (emitDownToZero r s) = requestQueueStatus s"
  by (simp_all add: emitDownToZero_def emit_def updWorker_def Let_def)

lemma timerFired_inv: "queue_inv s \<Longrightarrow> queue_inv (timerFired now q s)"
  by (auto simp: timerFired_def queue_inv_def settle_def recordQueuedDuration_def
      updRequest_def emit_def Let_def)

lemma fastFail_inv: "queue_inv s \<Longrightarrow> queue_inv (fastFailAllPendingsDueToStartError now req s)"
  by (simp add: fastFail_eq foldl_failEntry queue_inv_def)

lemma continueConsumeQueue_inv: "queue_inv s \<Longrightarrow> queue_inv (continueConsumeQueue now r s)"
  by (simp add: continueConsumeQueue_def tryConsumeQueue_exact queue_exact_inv)

lemma response_finished_inv:
  assumes "queue_inv s"
  shows "queue_inv (response_finished now r s)"
proof -
  have "queue_inv t" if "requestQueue t = requestQueue s"
      "requestQueueStatus t = requestQueueStatus s" for t
    using assms that by (simp add: queue_inv_def)
  then show ?thesis
    using assms
    by (auto simp: response_finished_def Let_def updWorker_def emitDownToZero_queue
        intro!: continueConsumeQueue_inv)
qed

lemma bindWorker_inv:
  assumes "queue_inv s"
  shows "queue_inv (fst (bindWorker now c init s))"
proof -
  have "queue_inv t" if "requestQueue t = requestQueue s"
      "requestQueueStatus t = requestQueueStatus s" for t
    using assms that by (simp add: queue_inv_def)
  then show ?thesis
    by (auto simp: bindWorker_def emit_def Let_def
        split: option.split outcome.split intro!: tryConsumeQueue_inv)
qed

lemma step_inv:
  assumes "queue_inv s"
  shows "queue_inv (step h s op)"
proof (cases op)
  case (Invoke now md)
  then show ?thesis using assms by (simp add: invoke_inv)
next
  case (InvokeSettled r res)
  then show ?thesis using assms by (simp add: invoke_settled_def queue_inv_def closeTraffic_queue)
next
  case (InspectorDone r md res)
  then show ?thesis using assms
    by (simp add: pipe_inspector_done_def pipe_dispatch_def emit_def updWorker_def queue_inv_def
        split: outcome.split)
next
  case (TriggerDone r waitMs res)
  then show ?thesis using assms
    by (simp add: pipe_trigger_done_def queue_inv_def split: outcome.split)
next
  case (ConsumeSettled q r res)
  then show ?thesis using assms
    by (simp add: consume_settled_def queue_inv_def closeTraffic_queue settle_queue Let_def
        split: sum.split)
next
  case (ResponseFinished now r)
  then show ?thesis using assms by (simp add: response_finished_inv)
next
  case (TimerFired now q)
  then show ?thesis using assms by (simp add: timerFired_inv)
next
  case (FastFail now req)
  then show ?thesis using assms by (simp add: fastFail_inv)
next
  case (TryConsumeQueue now r)
  then show ?thesis using assms by (simp add: tryConsumeQueue_exact queue_exact_inv)
next
  case (CloseTraffic r)
  then show ?thesis using assms by (simp add: queue_inv_def closeTraffic_queue)
next
  case (RegisterCredential n c)
  then show ?thesis using assms
    by (simp add: registerCredential_def queue_inv_def)
next
  case (BindWorker now c init)
  then show ?thesis using assms by (simp add: bindWorker_inv)
next
  case (RemoveWorker c)
  then show ?thesis using assms by (simp add: removeWorker_def queue_inv_def)
next
  case (UpdateProfile p)
  then show ?thesis using assms by (simp add: updateProfile_def queue_inv_def)
qed

lemma run_inv: "queue_inv s \<Longrightarrow> queue_inv (run h s ops)"
  unfolding run_def by (induction ops arbitrary: s) (simp_all add: step_inv)


lemma invoke_enqueued:
  assumes "snd (invoke h now md s) = Enqueued q"
  shows "requestQueueStatus (fst (invoke h now md s)) = QUEUEING
         \<and> requestQueue (fst (invoke h now md s)) \<noteq> []"
proof -
  have qr: "snd (queueRequest now md t) = Enqueued q \<Longrightarrow>
      requestQueueStatus (fst (queueRequest now md t)) = QUEUEING
      \<and> requestQueue (fst (queueRequest now md t)) \<noteq> []" for t
    by (simp add: queueRequest_def createPendingRequest_def emit_def Let_def split: if_splits)
  show ?thesis
    using assms qr
    by (auto simp: invoke_def split: prod.splits if_splits RequestQueueStatus.splits option.splits)
qed

lemma newBroker_inv: "queue_inv (newBroker p insp w0 p0)"
  by (simp add: newBroker_def queue_inv_def)

text \<open>
  C1, as the specification states it, fails: the request \<open>a\<close> is queued for want of a worker, its
  timer fires, and the queue is empty while the status is still \<open>QUEUEING\<close>.
\<close>

theorem queue_status_counterexample:
  "requestQueue (run least_first (emptyBroker exampleProfile) [Invoke 100 requestA, TimerFired 600 0]) = []
   \<and> requestQueueStatus (run least_first (emptyBroker exampleProfile) [Invoke 100 requestA, TimerFired 600 0])
       = QUEUEING"
  by (simp add: run_def invoke_def acquireToken_def getAvailableWorker_def least_first_def
      queueRequest_def createPendingRequest_def timerFired_def settle_def
      recordQueuedDuration_def updRequest_def emit_def requestA_def example_defs Let_def)

text \<open>
  C1, amended. After every sequence of operations on a new broker, the status is
  \<open>PASS_THROUGH\<close> only if the request queue is empty. The status is \<open>PASS_THROUGH\<close>
  if and only if the queue is empty after every \<open>tryConsumeQueue\<close>, and after an
  \<open>invoke\<close> that has queued its request; \<open>invoke\<close> keeps that equivalence when it holds.
  A timeout eviction and \<open>fastFailAllPendingsDueToStartError\<close> may empty the queue and
  leave the status \<open>QUEUEING\<close> until the next \<open>tryConsumeQueue\<close>.
\<close>

theorem queue_status_invariant:
  "queue_inv (run h (newBroker p insp w0 p0) ops)
   \<and> (queue_inv s \<longrightarrow> queue_exact (tryConsumeQueue now r s))
   \<and> (queue_exact s \<longrightarrow> queue_exact (fst (invoke h now md s)))
   \<and> (\<forall>q. snd (invoke h now md s) = Enqueued q \<longrightarrow> queue_exact (fst (invoke h now md s)))"
  using run_inv [OF newBroker_inv] tryConsumeQueue_exact invoke_exact invoke_enqueued
  by (auto simp: queue_exact_def)

theorem queue_status_invariant_witness:
  "requestQueueStatus (run least_first (emptyBroker exampleProfile) [Invoke 100 requestA]) = QUEUEING
   \<and> requestQueue (run least_first (emptyBroker exampleProfile) [Invoke 100 requestA]) = [0]
   \<and> requestQueueStatus (run least_first (emptyBroker exampleProfile)
        [Invoke 100 requestA, RegisterCredential ''cocos'' ''2d'', BindWorker 150 ''2d'' (Returns ())])
       = PASS_THROUGH
   \<and> requestQueue (run least_first (emptyBroker exampleProfile)
        [Invoke 100 requestA, RegisterCredential ''cocos'' ''2d'', BindWorker 150 ''2d'' (Returns ())])
       = []
   \<and> queue_inv (run least_first (emptyBroker exampleProfile)
        [Invoke 100 requestA, RegisterCredential ''cocos'' ''2d'', BindWorker 150 ''2d'' (Returns ())])
   \<and> queue_inv twoQueued
   \<and> queue_exact (tryConsumeQueue 200 0 twoQueued)
   \<and> queue_exact (emptyBroker exampleProfile)
   \<and> snd (invoke least_first 100 requestA (emptyBroker exampleProfile)) = Enqueued 0
   \<and> queue_exact (fst (invoke least_first 100 requestA (emptyBroker exampleProfile)))"
proof -
  have one: "requestQueueStatus (run least_first (emptyBroker exampleProfile) [Invoke 100 requestA]) = QUEUEING
      \<and> requestQueue (run least_first (emptyBroker exampleProfile) [Invoke 100 requestA]) = [0]"
    by (simp add: broker_defs requestA_def example_defs)
  have three: "requestQueueStatus (run least_first (emptyBroker exampleProfile)
        [Invoke 100 requestA, RegisterCredential ''cocos'' ''2d'', BindWorker 150 ''2d'' (Returns ())])
       = PASS_THROUGH
      \<and> requestQueue (run least_first (emptyBroker exampleProfile)
        [Invoke 100 requestA, RegisterCredential ''cocos'' ''2d'', BindWorker 150 ''2d'' (Returns ())])
       = []"
    by (simp add: broker_defs requestA_def example_defs)
  have two: "queue_inv twoQueued"
    by (simp add: queue_inv_def twoQueued_def example_defs)
  have empty: "queue_exact (emptyBroker exampleProfile)"
    by (simp add: queue_exact_def example_defs)
  have enq: "snd (invoke least_first 100 requestA (emptyBroker exampleProfile)) = Enqueued 0"
    by (simp add: broker_defs requestA_def example_defs)
  have run: "queue_inv (run least_first (emptyBroker exampleProfile)
        [Invoke 100 requestA, RegisterCredential ''cocos'' ''2d'', BindWorker 150 ''2d'' (Returns ())])"
    using queue_status_invariant [where h = least_first and p = exampleProfile and insp = False
        and ?w0.0 = "exampleWorker [] [] 0 False" and ?p0.0 = "exampleRequest [] 0 0"
        and ops = "[Invoke 100 requestA, RegisterCredential ''cocos'' ''2d'',
                    BindWorker 150 ''2d'' (Returns ())]"]
    by (simp add: emptyBroker_def)
  have consume: "queue_exact (tryConsumeQueue 200 0 twoQueued)"
    using queue_status_invariant [where s = twoQueued and now = 200 and r = 0] two by blast
  have inv: "queue_exact (fst (invoke least_first 100 requestA (emptyBroker exampleProfile)))"
    using queue_status_invariant [where s = "emptyBroker exampleProfile" and h = least_first
        and now = 100 and md = requestA] empty by blast
  show ?thesis
    using one three run two consume empty enq inv by blast
qed

subsection \<open>Disposable brokers\<close>

lemma maxActivateRequests_disposable: "brokerDisposable s \<Longrightarrow> maxActivateRequests s = 1"
  by (simp add: maxActivateRequests_def)

lemma invoke_settled_closes:
  "brokerDisposable s \<Longrightarrow>
     trafficOff (workerStore (fst (invoke_settled r res s)) r)
     \<and> CloseTrafficCalled r \<in> set (effects (fst (invoke_settled r res s)))
     \<and> snd (invoke_settled r res s) = res"
  by (simp add: invoke_settled_def closeTraffic_def emit_def updWorker_def Let_def)

lemma consume_settled_closes:
  "brokerDisposable s \<Longrightarrow>
     trafficOff (workerStore (consume_settled q r res s) r)
     \<and> CloseTrafficCalled r \<in> set (effects (consume_settled q r res s))"
  by (simp add: consume_settled_def closeTraffic_def settle_def emit_def updWorker_def
      updRequest_def brokerDisposable_def Let_def split: sum.split)

text \<open>
  A disposable broker's \<open>tryConsumeQueue\<close> hands at most one entry of the queue to the
  worker: besides skipping entries it makes at most two effects, the call of the delegate
  for one entry and the duration of its wait.
\<close>

lemma tryConsumeLoop_disposable_one:
  "brokerDisposable s \<Longrightarrow>
     (\<exists>es. effects (tryConsumeLoop now r s) = effects s @ es
        \<and> length (filter (\<lambda>e. isTrigger e \<or> e = DelegateInspectorStart (credential (workerStore s r))) es) \<le> 1)"
proof (induction now r s rule: tryConsumeLoop.induct)
  case (1 now r s)
  show ?case
  proof (cases "requestQueue s")
    case Nil
    then show ?thesis by (simp add: tryConsumeLoop.simps [of now r s])
  next
    case (Cons q rest)
    show ?thesis
    proof (cases "isWorkerFree s r")
      case False
      then show ?thesis using Cons by (simp add: tryConsumeLoop.simps [of now r s])
    next
      case True
      show ?thesis
      proof (cases "available (requestStore s q)")
        case False
        have "brokerDisposable (s\<lparr>requestQueue := rest\<rparr>)"
          using "1.prems" by (simp add: brokerDisposable_def)
        then show ?thesis
          using "1.IH"(1) [OF Cons _ refl] Cons True False
          by (simp add: tryConsumeLoop.simps [of now r s])
      next
        case avail: True
        have disp: "brokerDisposable (recordQueuedDuration now q
            (fst (pipe_begin r (metadata (requestStore (stopTimer q (s\<lparr>requestQueue := rest\<rparr>)) q))
               (stopTimer q (s\<lparr>requestQueue := rest\<rparr>)))))"
          using "1.prems"
          by (simp add: brokerDisposable_def recordQueuedDuration_def pipe_begin_def
              pipe_dispatch_def stopTimer_def emit_def updWorker_def updRequest_def)
        show ?thesis
          using Cons True avail disp
          apply (subst tryConsumeLoop.simps)
          apply (simp add: Let_def)
          apply (simp add: recordQueuedDuration_def pipe_begin_def
              pipe_dispatch_def stopTimer_def emit_def updWorker_def updRequest_def)
          done
      qed
    qed
  qed
qed

text \<open>
  C3. On a disposable broker \<open>maxActivateRequests\<close> is 1, and one worker is handed two
  requests before \<open>closeTraffic\<close> is called on it: the request \<open>a\<close> with a debugger tag is
  given to the idle worker, \<open>pipe\<close> waits for \<open>inspectorStart\<close> with
  \<open>activeRequestCount\<close> still 0, and the request \<open>b\<close> is given to the same worker.
  Both reach \<open>delegate.trigger\<close>; no \<open>closeTraffic\<close> has been called.
\<close>

theorem disposable_worker_two_dispatches:
  "brokerDisposable disposableIdle
   \<and> maxActivateRequests disposableIdle = 1
   \<and> snd (invoke least_first 100 taggedA disposableIdle) = Piped 0
   \<and> activeRequestCount (workerStore (fst (invoke least_first 100 taggedA disposableIdle)) 0) = 0
   \<and> snd (invoke least_first 101 requestB (fst (invoke least_first 100 taggedA disposableIdle))) = Piped 0
   \<and> effects (run least_first disposableIdle
        [Invoke 100 taggedA, Invoke 101 requestB, InspectorDone 0 taggedA (Returns ())])
       = [DelegateInspectorStart ''2d'', DelegateTrigger ''2d'' ''b'', DelegateTrigger ''2d'' ''a'']
   \<and> activeRequestCount (workerStore (run least_first disposableIdle
        [Invoke 100 taggedA, Invoke 101 requestB, InspectorDone 0 taggedA (Returns ())]) 0) = 2"
  by (simp add: broker_defs heapKey_def pipe_inspector_done_def disposableIdle_def taggedA_def
      requestB_def example_defs)

subsection \<open>The queue is well formed\<close>

lemma pipe_begin_frame:
  "requestQueue (fst (pipe_begin r md s)) = requestQueue s"
  "nextRef (fst (pipe_begin r md s)) = nextRef s"
  "requestStore (fst (pipe_begin r md s)) = requestStore s"
  by (simp_all add: pipe_begin_def pipe_dispatch_def emit_def updWorker_def)

lemma tryConsumeLoop_wf: "queue_wf s \<Longrightarrow> queue_wf (tryConsumeLoop now r s)"
proof (induction now r s rule: tryConsumeLoop.induct)
  case (1 now r s)
  show ?case
  proof (cases "requestQueue s")
    case Nil
    then show ?thesis using "1.prems" by (simp add: tryConsumeLoop.simps [of now r s])
  next
    case (Cons q rest)
    have wf1: "queue_wf (s\<lparr>requestQueue := rest\<rparr>)"
      using "1.prems" Cons by (simp add: queue_wf_def)
    have wf4: "queue_wf (recordQueuedDuration now q
        (fst (pipe_begin r (metadata (requestStore (stopTimer q (s\<lparr>requestQueue := rest\<rparr>)) q))
           (stopTimer q (s\<lparr>requestQueue := rest\<rparr>)))))"
      using "1.prems" Cons
      by (auto simp: queue_wf_def recordQueuedDuration_def emit_def pipe_begin_frame
          stopTimer_def updRequest_def)
    show ?thesis
      using Cons "1.IH" wf1 wf4 "1.prems"
      apply (subst tryConsumeLoop.simps)
      apply (simp add: Let_def)
      done
  qed
qed

lemma tryConsumeQueue_wf: "queue_wf s \<Longrightarrow> queue_wf (tryConsumeQueue now r s)"
  using tryConsumeLoop_wf [of s now r]
  by (simp add: tryConsumeQueue_def Let_def queue_wf_def)

lemma queueRequest_wf: "queue_wf s \<Longrightarrow> queue_wf (fst (queueRequest now md s))"
  by (auto simp: queueRequest_def createPendingRequest_def emit_def queue_wf_def Let_def)

lemma closeTraffic_wf: "queue_wf s \<Longrightarrow> queue_wf (closeTraffic r s)"
  by (simp add: closeTraffic_def emit_def updWorker_def queue_wf_def Let_def)

lemma settle_wf: "queue_wf s \<Longrightarrow> queue_wf (settle q v s)"
  by (simp add: settle_def updRequest_def queue_wf_def)

lemma invoke_wf:
  assumes "queue_wf s"
  shows "queue_wf (fst (invoke h now md s))"
proof -
  obtain s1 ok where a: "acquireToken s = (s1, ok)" by (cases "acquireToken s")
  have s1: "queue_wf s1"
    using assms a by (auto simp: acquireToken_def queue_wf_def split: option.splits prod.splits)
  obtain s2 w where g: "getAvailableWorker h s1 = (s2, w)" by (cases "getAvailableWorker h s1")
  have s2: "queue_wf s2"
    using s1 g by (auto simp: getAvailableWorker_def queue_wf_def Let_def split: list.splits if_splits)
  have p: "queue_wf (fst (pipe_begin r md s2))" for r
    using s2 by (simp add: queue_wf_def pipe_begin_frame)
  show ?thesis
    using a g s1 s2 p queueRequest_wf [of s1 now md] queueRequest_wf [of s2 now md]
    by (simp add: invoke_def split: RequestQueueStatus.split option.split)
qed

lemma timerFired_wf: "queue_wf s \<Longrightarrow> queue_wf (timerFired now q s)"
  by (auto simp: timerFired_def queue_wf_def settle_def recordQueuedDuration_def
      updRequest_def emit_def Let_def)

lemma fastFail_wf: "queue_wf s \<Longrightarrow> queue_wf (fastFailAllPendingsDueToStartError now req s)"
  by (simp add: fastFail_eq foldl_failEntry queue_wf_def)

lemma response_finished_wf:
  assumes "queue_wf s"
  shows "queue_wf (response_finished now r s)"
proof -
  have "queue_wf t" if "requestQueue t = requestQueue s" "nextRef t = nextRef s"
      "requestStore t = requestStore s" for t
    using assms that by (simp add: queue_wf_def)
  then show ?thesis
    using assms
    by (auto simp: response_finished_def continueConsumeQueue_def Let_def updWorker_def
        emitDownToZero_def emit_def intro!: tryConsumeQueue_wf)
qed

lemma bindWorker_wf:
  assumes "queue_wf s"
  shows "queue_wf (fst (bindWorker now c init s))"
proof -
  have "queue_wf t" if "requestQueue t = requestQueue s" "nextRef s \<le> nextRef t"
      "requestStore t = requestStore s" for t
    using assms that unfolding queue_wf_def by fastforce
  then show ?thesis
    by (auto simp: bindWorker_def emit_def Let_def
        split: option.split outcome.split intro!: tryConsumeQueue_wf)
qed

lemma step_wf:
  assumes "queue_wf s"
  shows "queue_wf (step h s op)"
proof (cases op)
  case (Invoke now md)
  then show ?thesis using assms by (simp add: invoke_wf)
next
  case (InvokeSettled r res)
  then show ?thesis using assms by (simp add: invoke_settled_def closeTraffic_wf)
next
  case (InspectorDone r md res)
  then show ?thesis using assms
    by (simp add: pipe_inspector_done_def pipe_dispatch_def emit_def updWorker_def queue_wf_def
        split: outcome.split)
next
  case (TriggerDone r waitMs res)
  then show ?thesis using assms
    by (simp add: pipe_trigger_done_def queue_wf_def split: outcome.split)
next
  case (ConsumeSettled q r res)
  then show ?thesis using assms
    by (simp add: consume_settled_def closeTraffic_wf settle_wf Let_def split: sum.split)
next
  case (ResponseFinished now r)
  then show ?thesis using assms by (simp add: response_finished_wf)
next
  case (TimerFired now q)
  then show ?thesis using assms by (simp add: timerFired_wf)
next
  case (FastFail now req)
  then show ?thesis using assms by (simp add: fastFail_wf)
next
  case (TryConsumeQueue now r)
  then show ?thesis using assms by (simp add: tryConsumeQueue_wf)
next
  case (CloseTraffic r)
  then show ?thesis using assms by (simp add: closeTraffic_wf)
next
  case (RegisterCredential n c)
  then show ?thesis using assms by (simp add: registerCredential_def queue_wf_def)
next
  case (BindWorker now c init)
  then show ?thesis using assms by (simp add: bindWorker_wf)
next
  case (RemoveWorker c)
  then show ?thesis using assms by (simp add: removeWorker_def queue_wf_def)
next
  case (UpdateProfile p)
  then show ?thesis using assms by (simp add: updateProfile_def queue_wf_def)
qed

text \<open>
  Whatever has happened to a broker since it was made, its queue is well formed: a queued
  request is linked once, is available and has its timer armed.
\<close>

lemma run_wf: "queue_wf (run h (newBroker p insp w0 p0) ops)"
proof -
  have "queue_wf s \<Longrightarrow> queue_wf (run h s ops)" for s
    unfolding run_def by (induction ops arbitrary: s) (simp_all add: step_wf)
  moreover have "queue_wf (newBroker p insp w0 p0)"
    by (simp add: newBroker_def queue_wf_def)
  ultimately show ?thesis by simp
qed

section \<open>Properties of the shrink\<close>

subsection \<open>The sort\<close>

lemma takeRun_append: "fst (takeRun d cmp p xs) @ snd (takeRun d cmp p xs) = xs"
  by (induction xs arbitrary: p) (simp_all add: Let_def case_prod_beta)

lemma mset_takeRun:
  "mset (fst (takeRun d cmp p xs)) + mset (snd (takeRun d cmp p xs)) = mset xs"
proof -
  have "mset (fst (takeRun d cmp p xs) @ snd (takeRun d cmp p xs)) = mset xs"
    by (simp only: takeRun_append)
  then show ?thesis by simp
qed

lemma mset_countAndMakeRun:
  "mset (fst (countAndMakeRun cmp xs)) + mset (snd (countAndMakeRun cmp xs)) = mset xs"
proof (cases xs)
  case Nil
  then show ?thesis by (simp add: countAndMakeRun_def)
next
  case (Cons a as)
  show ?thesis
  proof (cases as)
    case Nil
    then show ?thesis using Cons by (simp add: countAndMakeRun_def)
  next
    case (Cons b others)
    show ?thesis
      using \<open>xs = a # as\<close> Cons mset_takeRun [of True cmp b others]
        mset_takeRun [of False cmp b others]
      by (simp add: countAndMakeRun_def Let_def case_prod_beta)
  qed
qed

lemma binarySearch_done: "\<not> left < right \<Longrightarrow> binarySearch cmp pivot ys left right = left"
  by (subst binarySearch.simps) simp

lemma binarySearch_step:
  "left < right \<Longrightarrow> binarySearch cmp pivot ys left right =
     (if cmp pivot (ys ! (left + (right - left) div 2)) < 0
      then binarySearch cmp pivot ys left (left + (right - left) div 2)
      else binarySearch cmp pivot ys (left + (right - left) div 2 + 1) right)"
  by (subst binarySearch.simps) (simp add: Let_def)

lemma binarySearch_bounds:
  "left \<le> right \<Longrightarrow> left \<le> binarySearch cmp pivot ys left right
     \<and> binarySearch cmp pivot ys left right \<le> right"
proof (induction cmp pivot ys left right rule: binarySearch.induct)
  case (1 cmp pivot ys left right)
  show ?case
  proof (cases "left < right")
    case False
    then show ?thesis using "1.prems" by (simp add: binarySearch_done)
  next
    case True
    let ?mid = "left + (right - left) div 2"
    have m: "left \<le> ?mid" "?mid < right" using True by auto
    show ?thesis
    proof (cases "cmp pivot (ys ! ?mid) < 0")
      case lt: True
      have "left \<le> binarySearch cmp pivot ys left ?mid
          \<and> binarySearch cmp pivot ys left ?mid \<le> ?mid"
        using "1.IH"(1) [OF True refl lt] m by simp
      then show ?thesis
        using lt m True by (simp add: binarySearch_step)
    next
      case ge: False
      have "?mid + 1 \<le> binarySearch cmp pivot ys (?mid + 1) right
          \<and> binarySearch cmp pivot ys (?mid + 1) right \<le> right"
        using "1.IH"(2) [OF True refl ge] m by simp
      then show ?thesis
        using ge m True by (simp add: binarySearch_step)
    qed
  qed
qed

lemma mset_binaryInsert: "mset (binaryInsert cmp ys pivot) = add_mset pivot (mset ys)"
proof -
  have "mset (take n ys) + mset (drop n ys) = mset (take n ys @ drop n ys)" for n
    by (simp only: mset_append)
  then have "mset (take n ys) + mset (drop n ys) = mset ys" for n
    by (simp only: append_take_drop_id)
  then show ?thesis by (simp add: binaryInsert_def Let_def)
qed

lemma mset_foldl_binaryInsert:
  "mset (foldl (binaryInsert cmp) firstRun rest) = mset firstRun + mset rest"
  by (induction rest arbitrary: firstRun) (simp_all add: mset_binaryInsert)

lemma mset_sortBy: "mset (sortBy cmp xs) = mset xs"
  using mset_countAndMakeRun [of cmp xs]
  by (simp add: sortBy_def mset_foldl_binaryInsert case_prod_beta)


lemma sorted_wrt_take_drop:
  "sorted_wrt R ys \<Longrightarrow> sorted_wrt R (take n ys) \<and> sorted_wrt R (drop n ys)
     \<and> (\<forall>x \<in> set (take n ys). \<forall>y \<in> set (drop n ys). R x y)"
proof -
  assume "sorted_wrt R ys"
  then have "sorted_wrt R (take n ys @ drop n ys)" by (simp only: append_take_drop_id)
  then show ?thesis unfolding sorted_wrt_append by blast
qed

lemma takeRun_successively:
  "successively (\<lambda>p c. if d then cmp c p < 0 else \<not> cmp c p < 0) (p # fst (takeRun d cmp p xs))"
proof (induction xs arbitrary: p)
  case Nil
  show ?case by simp
next
  case (Cons c xs)
  show ?case
  proof (cases "if d then cmp c p \<ge> 0 else cmp c p < 0")
    case True
    then show ?thesis by (simp add: Let_def)
  next
    case False
    have "fst (takeRun d cmp p (c # xs)) = c # fst (takeRun d cmp c xs)"
      using False by (simp add: Let_def case_prod_beta)
    moreover have "if d then cmp c p < 0 else \<not> cmp c p < 0"
      using False by (simp split: if_splits)
    ultimately show ?thesis using Cons.IH [of c] by simp
  qed
qed

lemma takeRun_set: "set (fst (takeRun d cmp p xs)) \<subseteq> set xs"
proof -
  have "set (fst (takeRun d cmp p xs) @ snd (takeRun d cmp p xs)) = set xs"
    by (simp only: takeRun_append)
  then show ?thesis by auto
qed

lemma successively_sorted_wrt_on:
  assumes tr: "\<forall>x \<in> A. \<forall>y \<in> A. \<forall>z \<in> A. R x y \<longrightarrow> R y z \<longrightarrow> R x z"
    and sub: "set xs \<subseteq> A" and suc: "successively R xs"
  shows "sorted_wrt R xs"
proof -
  have "successively R xs \<longleftrightarrow> sorted_wrt R xs"
  proof (rule successively_iff_sorted_wrt_strong)
    fix x y z
    assume "x \<in> set xs" "y \<in> set xs" "z \<in> set xs" "R x y" "R y z"
    then show "R x z" using tr sub by blast
  qed
  then show ?thesis using suc by simp
qed

lemma countAndMakeRun_sorted:
  assumes d: "decides A R cmp" and sub: "set xs \<subseteq> A"
  shows "sorted_wrt R (fst (countAndMakeRun cmp xs))"
proof (cases xs)
  case Nil
  then show ?thesis by (simp add: countAndMakeRun_def)
next
  case (Cons a as)
  show ?thesis
  proof (cases as)
    case Nil
    then show ?thesis using Cons by (simp add: countAndMakeRun_def)
  next
    case (Cons b others)
    note xs = \<open>xs = a # as\<close> Cons
    have tr: "\<forall>x \<in> A. \<forall>y \<in> A. \<forall>z \<in> A. R x y \<longrightarrow> R y z \<longrightarrow> R x z"
      using d unfolding decides_def by (rule conjunct1)
    have dec: "\<forall>x \<in> A. \<forall>y \<in> A. (cmp x y < 0 \<longrightarrow> R x y) \<and> (\<not> cmp x y < 0 \<longrightarrow> R y x)"
      using d unfolding decides_def by (rule conjunct2)
    show ?thesis
    proof (cases "cmp b a < 0")
      case True
      let ?whole = "a # b # fst (takeRun True cmp b others)"
      have inA: "set ?whole \<subseteq> A" using sub xs takeRun_set [of True cmp b others] by auto
      have "successively (\<lambda>p c. cmp c p < 0) ?whole"
        using takeRun_successively [of True cmp b others] True by simp
      then have "successively (\<lambda>p c. R c p) ?whole"
      proof (rule successively_mono)
        fix x y assume a: "x \<in> set ?whole" "y \<in> set ?whole" "cmp y x < 0"
        have "x \<in> A" "y \<in> A" using a(1,2) inA by blast+
        then show "R y x" using dec a(3) by blast
      qed
      then have suc: "successively R (rev ?whole)" by (simp only: successively_rev)
      have inA': "set (rev ?whole) \<subseteq> A" using inA by simp
      have "sorted_wrt R (rev ?whole)"
        by (rule successively_sorted_wrt_on [OF tr inA' suc])
      then show ?thesis using xs True by (simp add: countAndMakeRun_def Let_def case_prod_beta)
    next
      case False
      let ?whole = "a # b # fst (takeRun False cmp b others)"
      have inA: "set ?whole \<subseteq> A" using sub xs takeRun_set [of False cmp b others] by auto
      have "successively (\<lambda>p c. \<not> cmp c p < 0) ?whole"
        using takeRun_successively [of False cmp b others] False by simp
      then have suc: "successively R ?whole"
      proof (rule successively_mono)
        fix x y assume a: "x \<in> set ?whole" "y \<in> set ?whole" "\<not> cmp y x < 0"
        have "x \<in> A" "y \<in> A" using a(1,2) inA by blast+
        then show "R x y" using dec a(3) by blast
      qed
      have "sorted_wrt R ?whole"
        by (rule successively_sorted_wrt_on [OF tr inA suc])
      then show ?thesis using xs False by (simp add: countAndMakeRun_def Let_def case_prod_beta)
    qed
  qed
qed


lemma binarySearch_splits:
  "decides A R cmp \<Longrightarrow> set ys \<subseteq> A \<Longrightarrow> pivot \<in> A \<Longrightarrow> sorted_wrt R ys \<Longrightarrow>
   left \<le> right \<Longrightarrow> right \<le> length ys \<Longrightarrow>
   (\<forall>x \<in> set (take left ys). R x pivot) \<Longrightarrow> (\<forall>y \<in> set (drop right ys). R pivot y) \<Longrightarrow>
   (\<forall>x \<in> set (take (binarySearch cmp pivot ys left right) ys). R x pivot)
   \<and> (\<forall>y \<in> set (drop (binarySearch cmp pivot ys left right) ys). R pivot y)"
proof (induction cmp pivot ys left right rule: binarySearch.induct)
  case (1 cmp pivot ys left right)
  note d = "1.prems"(1) and sub = "1.prems"(2) and p = "1.prems"(3) and srt = "1.prems"(4)
  have tr: "\<forall>x \<in> A. \<forall>y \<in> A. \<forall>z \<in> A. R x y \<longrightarrow> R y z \<longrightarrow> R x z"
    using d unfolding decides_def by (rule conjunct1)
  have dec: "\<forall>x \<in> A. \<forall>y \<in> A. (cmp x y < 0 \<longrightarrow> R x y) \<and> (\<not> cmp x y < 0 \<longrightarrow> R y x)"
    using d unfolding decides_def by (rule conjunct2)
  show ?case
  proof (cases "left < right")
    case False
    then have "left = right" using "1.prems"(5) by simp
    then show ?thesis using "1.prems"(7,8) by (simp add: binarySearch_done)
  next
    case True
    let ?mid = "left + (right - left) div 2"
    have m: "left \<le> ?mid" "?mid < right" "?mid < length ys" using True "1.prems"(6) by auto
    have midA: "ys ! ?mid \<in> A" using m(3) sub by (meson nth_mem subsetD)
    show ?thesis
    proof (cases "cmp pivot (ys ! ?mid) < 0")
      case lt: True
      have pm: "R pivot (ys ! ?mid)" using dec p midA lt by blast
      have "R pivot y" if y: "y \<in> set (drop ?mid ys)" for y
      proof -
        have dr: "drop ?mid ys = ys ! ?mid # drop (Suc ?mid) ys"
          using m(3) by (simp only: Cons_nth_drop_Suc)
        have "sorted_wrt R (drop ?mid ys)" using srt sorted_wrt_take_drop by blast
        then have after: "\<forall>z \<in> set (drop (Suc ?mid) ys). R (ys ! ?mid) z"
          unfolding dr by simp
        have yA: "y \<in> A" using y sub in_set_dropD by fastforce
        show ?thesis
        proof (cases "y = ys ! ?mid")
          case True
          then show ?thesis using pm by simp
        next
          case False
          then have "y \<in> set (drop (Suc ?mid) ys)" using y unfolding dr by simp
          then have "R (ys ! ?mid) y" using after by blast
          then show ?thesis using tr p midA yA pm by blast
        qed
      qed
      then have inv: "\<forall>y \<in> set (drop ?mid ys). R pivot y" by blast
      have le: "?mid \<le> length ys" using m(3) by simp
      have "(\<forall>x \<in> set (take (binarySearch cmp pivot ys left ?mid) ys). R x pivot)
         \<and> (\<forall>y \<in> set (drop (binarySearch cmp pivot ys left ?mid) ys). R pivot y)"
        by (rule "1.IH"(1) [OF True refl lt d sub p srt m(1) le "1.prems"(7) inv])
      then show ?thesis using True lt by (simp add: binarySearch_step)
    next
      case ge: False
      have mp: "R (ys ! ?mid) pivot" using dec p midA ge by blast
      have "R x pivot" if x: "x \<in> set (take (Suc ?mid) ys)" for x
      proof -
        have tk: "take (Suc ?mid) ys = take ?mid ys @ [ys ! ?mid]"
          using m(3) by (simp only: take_Suc_conv_app_nth)
        have "sorted_wrt R (take (Suc ?mid) ys)" using srt sorted_wrt_take_drop by blast
        then have before: "\<forall>z \<in> set (take ?mid ys). R z (ys ! ?mid)"
          unfolding tk by (simp add: sorted_wrt_append)
        have xA: "x \<in> A" using x sub in_set_takeD by fastforce
        show ?thesis
        proof (cases "x = ys ! ?mid")
          case True
          then show ?thesis using mp by simp
        next
          case False
          then have "x \<in> set (take ?mid ys)" using x unfolding tk by simp
          then have "R x (ys ! ?mid)" using before by blast
          then show ?thesis using tr p midA xA mp by blast
        qed
      qed
      then have inv: "\<forall>x \<in> set (take (?mid + 1) ys). R x pivot" by simp
      have le: "?mid + 1 \<le> right" using m(2) by simp
      have "(\<forall>x \<in> set (take (binarySearch cmp pivot ys (?mid + 1) right) ys). R x pivot)
         \<and> (\<forall>y \<in> set (drop (binarySearch cmp pivot ys (?mid + 1) right) ys). R pivot y)"
        by (rule "1.IH"(2) [OF True refl ge d sub p srt le "1.prems"(6) inv "1.prems"(8)])
      then show ?thesis using True ge by (simp add: binarySearch_step)
    qed
  qed
qed

lemma binaryInsert_sorted:
  assumes d: "decides A R cmp" and sub: "set ys \<subseteq> A" and p: "pivot \<in> A"
    and srt: "sorted_wrt R ys"
  shows "sorted_wrt R (binaryInsert cmp ys pivot)"
proof -
  let ?k = "binarySearch cmp pivot ys 0 (length ys)"
  have "(\<forall>x \<in> set (take ?k ys). R x pivot) \<and> (\<forall>y \<in> set (drop ?k ys). R pivot y)"
    using binarySearch_splits [OF d sub p srt, of 0 "length ys"] by simp
  moreover have "sorted_wrt R (take ?k ys) \<and> sorted_wrt R (drop ?k ys)
     \<and> (\<forall>x \<in> set (take ?k ys). \<forall>y \<in> set (drop ?k ys). R x y)"
    using srt by (rule sorted_wrt_take_drop)
  ultimately show ?thesis
    by (simp add: binaryInsert_def Let_def sorted_wrt_append)
qed

lemma set_binaryInsert: "set (binaryInsert cmp ys pivot) = insert pivot (set ys)"
proof -
  have "set (binaryInsert cmp ys pivot) = set_mset (mset (binaryInsert cmp ys pivot))" by simp
  also have "\<dots> = insert pivot (set ys)" by (simp only: mset_binaryInsert) simp
  finally show ?thesis .
qed

lemma foldl_binaryInsert_sorted:
  assumes d: "decides A R cmp"
  shows "set firstRun \<subseteq> A \<Longrightarrow> set rest \<subseteq> A \<Longrightarrow> sorted_wrt R firstRun \<Longrightarrow>
         sorted_wrt R (foldl (binaryInsert cmp) firstRun rest)"
proof (induction rest arbitrary: firstRun)
  case Nil
  then show ?case by simp
next
  case (Cons x rest)
  have x: "x \<in> A" and rest: "set rest \<subseteq> A" using Cons.prems(2) by simp_all
  have "sorted_wrt R (binaryInsert cmp firstRun x)"
    using d Cons.prems(1) x Cons.prems(3) by (rule binaryInsert_sorted)
  moreover have "set (binaryInsert cmp firstRun x) \<subseteq> A"
    using Cons.prems(1) x by (simp add: set_binaryInsert)
  ultimately show ?case using Cons.IH [of "binaryInsert cmp firstRun x"] rest by simp
qed

lemma set_sortBy: "set (sortBy cmp xs) = set xs"
  by (rule mset_eq_setD) (rule mset_sortBy)

lemma length_sortBy: "length (sortBy cmp xs) = length xs"
  by (rule mset_eq_length) (rule mset_sortBy)

lemma sorted_wrt_sortBy:
  assumes d: "decides A R cmp" and sub: "set xs \<subseteq> A"
  shows "sorted_wrt R (sortBy cmp xs)"
proof (cases "length xs < 2")
  case True
  then have "xs = [] \<or> (\<exists>a. xs = [a])"
    by (cases xs) (auto simp: length_Suc_conv)
  then show ?thesis using True by (auto simp: sortBy_def)
next
  case False
  have m: "mset (fst (countAndMakeRun cmp xs)) + mset (snd (countAndMakeRun cmp xs)) = mset xs"
    by (rule mset_countAndMakeRun)
  have "set_mset (mset (fst (countAndMakeRun cmp xs)) + mset (snd (countAndMakeRun cmp xs)))
      = set xs"
    by (simp only: m set_mset_mset)
  then have subs: "set (fst (countAndMakeRun cmp xs)) \<subseteq> A" "set (snd (countAndMakeRun cmp xs)) \<subseteq> A"
    using sub by auto
  have "sorted_wrt R (fst (countAndMakeRun cmp xs))"
    using d sub by (rule countAndMakeRun_sorted)
  then have "sorted_wrt R (foldl (binaryInsert cmp) (fst (countAndMakeRun cmp xs))
      (snd (countAndMakeRun cmp xs)))"
    using foldl_binaryInsert_sorted [OF d subs] by simp
  then show ?thesis using False by (simp add: sortBy_def case_prod_beta)
qed

text \<open>Two lists of the same elements, sorted by an antisymmetric relation, are the same list.\<close>

lemma sorted_wrt_unique:
  assumes antisym: "\<And>x y. x \<in> set xs \<Longrightarrow> y \<in> set xs \<Longrightarrow> R x y \<Longrightarrow> R y x \<Longrightarrow> x = y"
  shows "mset xs = mset ys \<Longrightarrow> sorted_wrt R xs \<Longrightarrow> sorted_wrt R ys \<Longrightarrow> xs = ys"
  using antisym
proof (induction xs arbitrary: ys)
  case Nil
  then show ?case by simp
next
  case (Cons x xs)
  from Cons.prems(1) obtain y ys' where ys: "ys = y # ys'" by (cases ys) auto
  have sets: "set (x # xs) = set (y # ys')" using Cons.prems(1) ys mset_eq_setD by blast
  have xy: "x = y"
  proof (rule ccontr)
    assume neq: "x \<noteq> y"
    then have "x \<in> set ys'" and "y \<in> set xs" using sets by auto
    then have "R y x" and "R x y" using Cons.prems(2,3) ys by auto
    moreover have "y \<in> set (x # xs)" using sets by auto
    ultimately show False using Cons.prems(4) [of x y] neq by simp
  qed
  have "mset xs = mset ys'" using Cons.prems(1) ys xy by simp
  moreover have "sorted_wrt R xs" "sorted_wrt R ys'" using Cons.prems(2,3) ys by simp_all
  ultimately have "xs = ys'" using Cons.IH [of ys'] Cons.prems(4) by simp
  then show ?case using ys xy by simp
qed


subsection \<open>Victim selection\<close>

lemma decides_oldest: "decides A (drawnBefore ''FIFO'') oldestCompare"
  unfolding decides_def drawnBefore_def oldestCompare_def by (auto split: if_splits)

lemma decides_newest: "decides A (drawnBefore ''FILO'') newestCompare"
  unfolding decides_def drawnBefore_def newestCompare_def by (auto split: if_splits)

lemma decides_idle:
  assumes "st \<noteq> ''FIFO''" "st \<noteq> ''FILO''" "\<forall>w \<in> A. dataActiveRequestCount w \<noteq> None"
  shows "decides A (drawnBefore st) idleCompare"
  using assms unfolding decides_def drawnBefore_def idleCompare_def js_lt_def
  by (auto split: if_splits option.splits)

lemma decides_drawCompare:
  assumes "st \<notin> {''FILO'', ''FIFO''} \<longrightarrow> (\<forall>w \<in> A. dataActiveRequestCount w \<noteq> None)"
  shows "decides A (drawnBefore st) (drawCompare st)"
  using assms decides_oldest [of A] decides_newest [of A] decides_idle [of st A]
  by (auto simp: drawCompare_def)

lemma shrinkDraw_candidates: "shrinkDraw dflt b n = map toRef (take n (candidates dflt b))"
proof -
  have "(\<lambda>w. \<lparr>refName = statsName w, refCredential = statsCredential w\<rparr>) = toRef"
    by (simp add: toRef_def fun_eq_iff)
  then show ?thesis
    by (simp add: shrinkDraw_def candidates_def drawCompare_def mostIdleNWorkers_def
        newestNWorkers_def oldestNWorkers_def mostWhatNWorkers_def Let_def)
qed

lemma drawnBefore_antisym:
  assumes "drawnBefore st a b" "drawnBefore st b a"
  shows "statsCredential a = statsCredential b"
  using assms unfolding drawnBefore_def js_lt_def
  by (auto split: if_splits option.splits)

lemma candidates_sorted:
  assumes "drawStrategy dflt b \<notin> {''FILO'', ''FIFO''} \<longrightarrow>
           (\<forall>w \<in> set (workers b). running w \<longrightarrow> dataActiveRequestCount w \<noteq> None)"
  shows "sorted_wrt (drawnBefore (drawStrategy dflt b)) (candidates dflt b)"
proof -
  let ?A = "set (filter running (workers b))"
  have "decides ?A (drawnBefore (drawStrategy dflt b)) (drawCompare (drawStrategy dflt b))"
    using assms by (intro decides_drawCompare) auto
  then show ?thesis
    unfolding candidates_def by (rule sorted_wrt_sortBy) simp
qed

lemma candidates_mset: "mset (candidates dflt b) = mset (filter running (workers b))"
  by (simp add: candidates_def mset_sortBy)

lemma candidates_permuted:
  assumes data: "drawStrategy dflt b \<notin> {''FILO'', ''FIFO''} \<longrightarrow>
           (\<forall>w \<in> set (workers b). running w \<longrightarrow> dataActiveRequestCount w \<noteq> None)"
    and dist: "distinct (map statsCredential (filter running (workers b)))"
    and perm: "mset (workers b') = mset (workers b)"
    and same: "drawStrategy dflt b' = drawStrategy dflt b"
  shows "candidates dflt b' = candidates dflt b"
proof -
  have sets: "set (workers b') = set (workers b)" using perm by (rule mset_eq_setD)
  have data': "drawStrategy dflt b' \<notin> {''FILO'', ''FIFO''} \<longrightarrow>
           (\<forall>w \<in> set (workers b'). running w \<longrightarrow> dataActiveRequestCount w \<noteq> None)"
    using data sets same by simp
  have m: "mset (candidates dflt b') = mset (candidates dflt b)"
    using perm by (simp add: candidates_mset)
  have inj: "inj_on statsCredential (set (filter running (workers b)))"
    using dist by (simp add: distinct_map)
  have cset: "set (candidates dflt b') = set (filter running (workers b))"
  proof -
    have "mset (candidates dflt b') = mset (filter running (workers b))"
      using m candidates_mset [of dflt b] by (rule trans)
    then show ?thesis by (rule mset_eq_setD)
  qed
  have anti: "x = y" if "x \<in> set (candidates dflt b')" "y \<in> set (candidates dflt b')"
      "drawnBefore (drawStrategy dflt b) x y" "drawnBefore (drawStrategy dflt b) y x" for x y
  proof -
    have "statsCredential x = statsCredential y" using that(3,4) by (rule drawnBefore_antisym)
    moreover have "x \<in> set (filter running (workers b))" "y \<in> set (filter running (workers b))"
      using that(1,2) cset by simp_all
    ultimately show ?thesis using inj by (rule_tac inj_onD)
  qed
  have s': "sorted_wrt (drawnBefore (drawStrategy dflt b)) (candidates dflt b')"
    using candidates_sorted [OF data'] same by simp
  have s: "sorted_wrt (drawnBefore (drawStrategy dflt b)) (candidates dflt b)"
    using data by (rule candidates_sorted)
  show ?thesis
    by (rule sorted_wrt_unique [where R = "drawnBefore (drawStrategy dflt b)", OF anti m s' s])
qed

text \<open>
  C6, as the specification states it, fails: with a running worker that has no data the
  comparator of \<open>LCC\<close> does not order the workers. Of \<open>busy\<close> (two requests), \<open>fresh\<close>
  (no data) and \<open>idle\<close> (one request) the draw of one worker is \<open>busy\<close>, not the worker
  of least \<open>activeRequestCount\<close>, and the candidates are not in the order of \<open>LCC\<close>.
\<close>

theorem shrinkDraw_order_counterexample:
  "drawStrategy ''FIFO'' dataLessBroker = ''LCC''
   \<and> map running (workers dataLessBroker) = [True, True, True]
   \<and> map dataActiveRequestCount (workers dataLessBroker) = [Some 2, None, Some 1]
   \<and> candidates ''FIFO'' dataLessBroker = workers dataLessBroker
   \<and> shrinkDraw ''FIFO'' dataLessBroker 1 = [\<lparr>refName = ''busy'', refCredential = ''a''\<rparr>]
   \<and> \<not> sorted_wrt (drawnBefore ''LCC'') (candidates ''FIFO'' dataLessBroker)"
proof -
  have c: "candidates ''FIFO'' dataLessBroker = workers dataLessBroker"
    by (simp add: candidates_def drawCompare_def draw_defs dataLessBroker_def)
  have s: "\<not> sorted_wrt (drawnBefore ''LCC'') (workers dataLessBroker)"
    by (simp add: drawnBefore_def js_lt_def dataLessBroker_def)
  have d: "shrinkDraw ''FIFO'' dataLessBroker 1 = [\<lparr>refName = ''busy'', refCredential = ''a''\<rparr>]"
    by (simp add: draw_defs dataLessBroker_def)
  have r: "drawStrategy ''FIFO'' dataLessBroker = ''LCC''"
    "map running (workers dataLessBroker) = [True, True, True]"
    "map dataActiveRequestCount (workers dataLessBroker) = [Some 2, None, Some 1]"
    by (simp_all add: drawStrategy_def dataLessBroker_def)
  show ?thesis using c s d r by simp
qed

text \<open>
  C6, amended. \<open>shrinkDraw\<close> is a function of the broker, the strategy and the count. It
  returns the first \<open>n\<close> of the candidates, which are the workers that are \<open>Running\<close>,
  each once; so the result has \<open>min n\<close> (number of running workers) elements. Any value
  of the strategy other than \<open>FILO\<close> and \<open>FIFO\<close> is treated as \<open>LCC\<close>. The candidates
  are in the order of the strategy, oldest \<open>registerTime\<close> first for \<open>FIFO\<close>, newest
  first for \<open>FILO\<close>, and, when every running worker has its data, least
  \<open>activeRequestCount\<close> first for \<open>LCC\<close>; ties go by the credential in ascending
  lexicographic order. Then the draw does not depend on the order in which the broker's map
  holds the workers, their credentials being distinct.
\<close>

theorem shrinkDraw_order:
  "shrinkDraw dflt b n = map toRef (take n (candidates dflt b))
   \<and> mset (candidates dflt b) = mset (filter running (workers b))
   \<and> length (shrinkDraw dflt b n) = min n (length (filter running (workers b)))
   \<and> (drawStrategy dflt b \<notin> {''FILO'', ''FIFO''} \<longrightarrow>
        shrinkDraw dflt b n = mostIdleNWorkers b n
        \<and> drawnBefore (drawStrategy dflt b) = drawnBefore ''LCC'')
   \<and> ((drawStrategy dflt b \<notin> {''FILO'', ''FIFO''} \<longrightarrow>
          (\<forall>w \<in> set (workers b). running w \<longrightarrow> dataActiveRequestCount w \<noteq> None)) \<longrightarrow>
        sorted_wrt (drawnBefore (drawStrategy dflt b)) (candidates dflt b)
        \<and> (distinct (map statsCredential (filter running (workers b))) \<longrightarrow>
             (\<forall>b'. mset (workers b') = mset (workers b)
                   \<and> drawStrategy dflt b' = drawStrategy dflt b \<longrightarrow>
                   shrinkDraw dflt b' n = shrinkDraw dflt b n)))"
proof -
  have len: "length (candidates dflt b) = length (filter running (workers b))"
    using candidates_mset [of dflt b] by (rule mset_eq_length)
  have fallback: "drawStrategy dflt b \<notin> {''FILO'', ''FIFO''} \<longrightarrow>
      shrinkDraw dflt b n = mostIdleNWorkers b n
      \<and> drawnBefore (drawStrategy dflt b) = drawnBefore ''LCC''"
    by (simp add: shrinkDraw_def drawnBefore_def fun_eq_iff Let_def)
  have c1: "shrinkDraw dflt b n = map toRef (take n (candidates dflt b))"
    by (rule shrinkDraw_candidates)
  have c2: "mset (candidates dflt b) = mset (filter running (workers b))"
    by (rule candidates_mset)
  have c4: "length (shrinkDraw dflt b n) = min n (length (filter running (workers b)))"
    using len by (simp add: shrinkDraw_candidates min.commute)
  have ordered: "sorted_wrt (drawnBefore (drawStrategy dflt b)) (candidates dflt b)
        \<and> (distinct (map statsCredential (filter running (workers b))) \<longrightarrow>
             (\<forall>b'. mset (workers b') = mset (workers b)
                   \<and> drawStrategy dflt b' = drawStrategy dflt b \<longrightarrow>
                   shrinkDraw dflt b' n = shrinkDraw dflt b n))"
    if data: "drawStrategy dflt b \<notin> {''FILO'', ''FIFO''} \<longrightarrow>
          (\<forall>w \<in> set (workers b). running w \<longrightarrow> dataActiveRequestCount w \<noteq> None)"
  proof -
    have perm: "shrinkDraw dflt b' n = shrinkDraw dflt b n"
      if "distinct (map statsCredential (filter running (workers b)))"
        "mset (workers b') = mset (workers b)" "drawStrategy dflt b' = drawStrategy dflt b" for b'
      using candidates_permuted [OF data that] by (simp add: shrinkDraw_candidates)
    have c3: "sorted_wrt (drawnBefore (drawStrategy dflt b)) (candidates dflt b)"
      using data by (rule candidates_sorted)
    show ?thesis using c3 perm by blast
  qed
  show ?thesis
    using c1 c2 c4 fallback ordered by blast
qed

theorem shrinkDraw_order_witness:
  "drawStrategy ''LCC'' lambdaBroker = ''LCC''
   \<and> shrinkDraw ''LCC'' lambdaBroker 2 =
       [\<lparr>refName = ''cocos'', refCredential = ''2d''\<rparr>,
        \<lparr>refName = ''alibaba'', refCredential = ''seed of hope''\<rparr>]
   \<and> shrinkDraw ''LCC'' lambdaBroker 2 = map toRef (take 2 (candidates ''LCC'' lambdaBroker))
   \<and> length (shrinkDraw ''LCC'' lambdaBroker 2) = min 2 (length (filter running (workers lambdaBroker)))
   \<and> length (filter running (workers lambdaBroker)) = 3
   \<and> distinct (map statsCredential (filter running (workers lambdaBroker)))
   \<and> sorted_wrt (drawnBefore (drawStrategy ''LCC'' lambdaBroker)) (candidates ''LCC'' lambdaBroker)
   \<and> shrinkDraw ''LCC'' (lambdaBroker\<lparr>workers := rev (workers lambdaBroker)\<rparr>) 2
       = shrinkDraw ''LCC'' lambdaBroker 2
   \<and> shrinkDraw ''RANDOM'' lambdaBroker 2 = mostIdleNWorkers lambdaBroker 2
   \<and> shrinkDraw ''LCC'' (lambdaBroker\<lparr>brokerData := Some \<lparr>shrinkStrategy = Some ''FILO''\<rparr>\<rparr>) 2 =
       [\<lparr>refName = ''cocos'', refCredential = ''2d''\<rparr>,
        \<lparr>refName = ''alibaba'', refCredential = ''seed of hope''\<rparr>]"
proof -
  have st: "drawStrategy ''LCC'' lambdaBroker = ''LCC''"
    and st': "drawStrategy ''RANDOM'' lambdaBroker = ''RANDOM''"
    and str: "drawStrategy ''LCC'' (lambdaBroker\<lparr>workers := rev (workers lambdaBroker)\<rparr>) = ''LCC''"
    by (simp_all add: drawStrategy_def lambdaBroker_def)
  have data: "drawStrategy dflt lambdaBroker \<notin> {''FILO'', ''FIFO''} \<longrightarrow>
      (\<forall>w \<in> set (workers lambdaBroker). running w \<longrightarrow> dataActiveRequestCount w \<noteq> None)" for dflt
    by (simp add: lambdaBroker_def)
  have draw: "shrinkDraw ''LCC'' lambdaBroker 2 =
       [\<lparr>refName = ''cocos'', refCredential = ''2d''\<rparr>,
        \<lparr>refName = ''alibaba'', refCredential = ''seed of hope''\<rparr>]"
    by (simp add: draw_defs lambdaBroker_def)
  have filo: "shrinkDraw ''LCC'' (lambdaBroker\<lparr>brokerData := Some \<lparr>shrinkStrategy = Some ''FILO''\<rparr>\<rparr>) 2 =
       [\<lparr>refName = ''cocos'', refCredential = ''2d''\<rparr>,
        \<lparr>refName = ''alibaba'', refCredential = ''seed of hope''\<rparr>]"
    by (simp add: draw_defs lambdaBroker_def)
  have n: "length (filter running (workers lambdaBroker)) = 3"
    and d: "distinct (map statsCredential (filter running (workers lambdaBroker)))"
    by (simp_all add: lambdaBroker_def)
  have perm: "mset (workers (lambdaBroker\<lparr>workers := rev (workers lambdaBroker)\<rparr>))
      = mset (workers lambdaBroker)"
    by simp
  note so = shrinkDraw_order [of "''LCC''" lambdaBroker 2]
  have c: "shrinkDraw ''LCC'' lambdaBroker 2 = map toRef (take 2 (candidates ''LCC'' lambdaBroker))"
    by (rule so [THEN conjunct1])
  have l: "length (shrinkDraw ''LCC'' lambdaBroker 2)
            = min 2 (length (filter running (workers lambdaBroker)))"
    by (rule so [THEN conjunct2, THEN conjunct2, THEN conjunct1])
  note ordered = so [THEN conjunct2, THEN conjunct2, THEN conjunct2, THEN conjunct2, THEN mp,
      OF data]
  have srt: "sorted_wrt (drawnBefore (drawStrategy ''LCC'' lambdaBroker)) (candidates ''LCC'' lambdaBroker)"
    by (rule ordered [THEN conjunct1])
  have "\<forall>b'. mset (workers b') = mset (workers lambdaBroker)
          \<and> drawStrategy ''LCC'' b' = drawStrategy ''LCC'' lambdaBroker
          \<longrightarrow> shrinkDraw ''LCC'' b' 2 = shrinkDraw ''LCC'' lambdaBroker 2"
    using ordered [THEN conjunct2] d by (rule mp)
  then have "mset (workers (lambdaBroker\<lparr>workers := rev (workers lambdaBroker)\<rparr>))
          = mset (workers lambdaBroker)
          \<and> drawStrategy ''LCC'' (lambdaBroker\<lparr>workers := rev (workers lambdaBroker)\<rparr>)
            = drawStrategy ''LCC'' lambdaBroker
          \<longrightarrow> shrinkDraw ''LCC'' (lambdaBroker\<lparr>workers := rev (workers lambdaBroker)\<rparr>) 2
            = shrinkDraw ''LCC'' lambdaBroker 2"
    by (rule spec)
  moreover have "drawStrategy ''LCC'' (lambdaBroker\<lparr>workers := rev (workers lambdaBroker)\<rparr>)
            = drawStrategy ''LCC'' lambdaBroker"
    by (simp add: drawStrategy_def)
  ultimately have r: "shrinkDraw ''LCC'' (lambdaBroker\<lparr>workers := rev (workers lambdaBroker)\<rparr>) 2
            = shrinkDraw ''LCC'' lambdaBroker 2"
    using perm by blast
  have "drawStrategy ''RANDOM'' lambdaBroker \<notin> {''FILO'', ''FIFO''}"
    by (simp add: st')
  moreover have "drawStrategy ''RANDOM'' lambdaBroker \<notin> {''FILO'', ''FIFO''} \<longrightarrow>
      shrinkDraw ''RANDOM'' lambdaBroker 2 = mostIdleNWorkers lambdaBroker 2
      \<and> drawnBefore (drawStrategy ''RANDOM'' lambdaBroker) = drawnBefore ''LCC''"
    by (rule shrinkDraw_order [of "''RANDOM''" lambdaBroker 2, THEN conjunct2, THEN conjunct2,
        THEN conjunct2, THEN conjunct1])
  ultimately have f: "shrinkDraw ''RANDOM'' lambdaBroker 2 = mostIdleNWorkers lambdaBroker 2"
    by blast
  show ?thesis
    by (intro conjI) (rule st draw c l n d srt r f filo)+
qed

subsection \<open>Shrink\<close>

lemma collectShrinkData_eq:
  "collectShrinkData dflt deltas = map (shrinkRequest dflt) (filter qualifies deltas)"
  by (induction deltas) (auto simp: qualifies_def shrinkRequest_def)

lemma stopEnsuredWorkers_eq:
  "stopEnsuredWorkers getWorker fn insp ws res =
     res\<lparr>markedShrink := markedShrink res @
            map (\<lambda>w. (fn, insp, refName w))
              (filter (credentialMatches getWorker \<lparr>functionName = fn, inspector = insp, shrinkWorkers = ws'\<rparr>) ws),
         stopWorkerCalls := stopWorkerCalls res @
            map refName
              (filter (credentialMatches getWorker \<lparr>functionName = fn, inspector = insp, shrinkWorkers = ws'\<rparr>) ws)\<rparr>"
  by (induction ws arbitrary: res) (auto simp: credentialMatches_def split: option.splits)

lemma credentialMatches_cong:
  "credentialMatches getWorker \<lparr>functionName = functionName b, inspector = inspector b, shrinkWorkers = ws'\<rparr>
     = credentialMatches getWorker b"
  by (simp add: credentialMatches_def fun_eq_iff)

lemma stopEnsured_eq:
  "stopEnsured getWorker ensured res =
     res\<lparr>markedShrink := markedShrink res @ toStop getWorker ensured,
         stopWorkerCalls := stopWorkerCalls res @ map (\<lambda>(fn, insp, n). n) (toStop getWorker ensured)\<rparr>"
proof (induction ensured arbitrary: res)
  case Nil
  show ?case by (simp add: toStop_def)
next
  case (Cons b bs)
  show ?case
    by (simp add: Cons.IH toStop_def
        stopEnsuredWorkers_eq [where ws' = "shrinkWorkers b"] credentialMatches_cong comp_def)
qed

text \<open>
  C5. \<open>doShrink\<close> skips the deltas with \<open>count \<ge> 0\<close>, the inspector brokers and the
  disposable brokers. For the deltas that remain it makes one request, with the
  \<open>shrinkDraw\<close> of \<open>|count|\<close> workers of each in the order of the deltas, and calls
  \<open>reduceCapacity\<close> once with it; when no delta remains it calls nothing. It marks as
  \<open>Shrink\<close> and stops, in the order of the answer, exactly the workers of the answer that
  the state manager knows under the credential of the answer.
\<close>

theorem doShrink_batches:
  "(let res = doShrink dflt reduceCapacity getWorker deltas;
        request = map (shrinkRequest dflt) (filter qualifies deltas)
    in reduceCapacityCalls res = (if filter qualifies deltas = [] then [] else [request])
       \<and> markedShrink res =
           (if filter qualifies deltas = [] then []
            else case reduceCapacity request of
                   None \<Rightarrow> []
                 | Some ensured \<Rightarrow> toStop getWorker ensured)
       \<and> stopWorkerCalls res = map (\<lambda>(fn, insp, n). n) (markedShrink res))"
  by (simp add: doShrink_def collectShrinkData_eq stopEnsured_eq Let_def toStop_def
      split: option.split)

theorem doShrink_batches_witness:
  "filter qualifies exampleDeltas = [\<lparr>count = - 2, broker = lambdaBroker\<rparr>]
   \<and> reduceCapacityCalls (doShrink ''LCC'' allButLast lambdaWorkers exampleDeltas) =
       [[\<lparr>functionName = ''lambda'', inspector = False,
          shrinkWorkers = [\<lparr>refName = ''cocos'', refCredential = ''2d''\<rparr>,
                           \<lparr>refName = ''alibaba'', refCredential = ''seed of hope''\<rparr>]\<rparr>]]
   \<and> markedShrink (doShrink ''LCC'' allButLast lambdaWorkers exampleDeltas) =
       [(''lambda'', False, ''cocos'')]
   \<and> stopWorkerCalls (doShrink ''LCC'' allButLast lambdaWorkers exampleDeltas) = [''cocos'']"
proof -
  have q: "filter qualifies exampleDeltas = [\<lparr>count = - 2, broker = lambdaBroker\<rparr>]"
    by (simp add: exampleDeltas_def qualifies_def funcBroker_def lambdaBroker_def)
  have draw: "shrinkDraw ''LCC'' lambdaBroker 2 =
       [\<lparr>refName = ''cocos'', refCredential = ''2d''\<rparr>,
        \<lparr>refName = ''alibaba'', refCredential = ''seed of hope''\<rparr>]"
    by (simp add: draw_defs lambdaBroker_def)
  have req: "map (shrinkRequest ''LCC'') (filter qualifies exampleDeltas) =
       [\<lparr>functionName = ''lambda'', inspector = False,
         shrinkWorkers = [\<lparr>refName = ''cocos'', refCredential = ''2d''\<rparr>,
                          \<lparr>refName = ''alibaba'', refCredential = ''seed of hope''\<rparr>]\<rparr>]"
    using q draw by (simp add: shrinkRequest_def lambdaBroker_def)
  have stop: "toStop lambdaWorkers
       [\<lparr>functionName = ''lambda'', inspector = False,
         shrinkWorkers = [\<lparr>refName = ''cocos'', refCredential = ''2d''\<rparr>]\<rparr>]
      = [(''lambda'', False, ''cocos'')]"
    by (simp add: toStop_def credentialMatches_def lambdaWorkers_def lambdaBroker_def)
  show ?thesis
    using doShrink_batches [of "''LCC''" allButLast lambdaWorkers exampleDeltas] q req stop
    by (simp add: Let_def allButLast_def)
qed

end
